theory Spec2Isabelle
  imports Complex_Main "HOL-Library.Sublist"
begin

section \<open>Python values used by the plugin test runner\<close>

text \<open>
  Python strings are modelled as \<open>string\<close>, \<open>str | None\<close> as \<open>string option\<close>.
  A value used as a condition (\<open>if package.github_url:\<close>) is true when it is neither
  \<open>None\<close> nor the empty string.
\<close>

definition truthy :: "string option \<Rightarrow> bool" where
  "truthy v = (case v of None \<Rightarrow> False | Some s \<Rightarrow> s \<noteq> [])"

text \<open>\<open>needle in hay\<close> on strings: \<open>needle\<close> occurs as a contiguous substring.\<close>

fun str_in :: "string \<Rightarrow> string \<Rightarrow> bool" where
  "str_in needle [] = (needle = [])"
| "str_in needle (c # cs) = (prefix needle (c # cs) \<or> str_in needle cs)"

text \<open>\<open>s.endswith(suf)\<close>.\<close>

definition endswith :: "string \<Rightarrow> string \<Rightarrow> bool" where
  "endswith s suf = prefix (rev suf) (rev s)"

text \<open>The text an f-string produces for \<open>{x}\<close> when \<open>x\<close> is a string or \<open>None\<close>.\<close>

definition fmt :: "string option \<Rightarrow> string" where
  "fmt v = (case v of None \<Rightarrow> ''None'' | Some s \<Rightarrow> s)"

text \<open>
  \<open>os.path.join(a, b)\<close> on POSIX: an absolute \<open>b\<close> replaces \<open>a\<close>; otherwise the parts are
  joined by one slash unless \<open>a\<close> is empty or already ends with one.
\<close>

definition path_join :: "string \<Rightarrow> string \<Rightarrow> string" where
  "path_join a b =
     (if prefix ''/'' b then b
      else if a = [] \<or> endswith a ''/'' then a @ b
      else a @ ''/'' @ b)"

text \<open>
  \<open>s.split(",")\<close> and \<open>s.strip()\<close>. Characters are read as code points below 256; the
  set is the one \<open>str.isspace\<close> accepts in that range.
\<close>

fun split_on :: "char \<Rightarrow> string \<Rightarrow> string list" where
  "split_on sep [] = [[]]"
| "split_on sep (c # cs) =
     (if c = sep then [] # split_on sep cs
      else (case split_on sep cs of w # ws \<Rightarrow> (c # w) # ws | [] \<Rightarrow> [[c]]))"

definition isspace :: "char \<Rightarrow> bool" where
  "isspace c = (of_char c \<in> {9, 10, 11, 12, 13, 28, 29, 30, 31, 32, 133, 160 :: nat})"

definition strip :: "string \<Rightarrow> string" where
  "strip s = rev (dropWhile isspace (rev (dropWhile isspace s)))"

text \<open>Errors a call can end with instead of returning.\<close>

datatype py_error = ZeroDivisionError | IndexError | ValueError | Raised string

section \<open>parsing.py: the package descriptor\<close>

text \<open>
  The dataclass \<open>PluginPackage\<close>. The field \<open>name\<close> is called \<open>pname\<close> here; the
  fields \<open>description\<close>, \<open>documentation\<close> and \<open>entry_points\<close> are never read by cli.py
  and are kept only as data.
\<close>

record plugin_package =
  pname :: string
  description :: "string option"
  version :: "string option"
  homepage :: "string option"
  documentation :: "string option"
  repository :: "string option"
  github_url :: "string option"
  commit_hash :: "string option"
  entry_points :: "string list"

section \<open>cli.py: clone URL selection\<close>

definition is_valid_github_url :: "string option \<Rightarrow> bool" where
  "is_valid_github_url url =
     (case url of None \<Rightarrow> False | Some u \<Rightarrow> str_in ''github.com'' u)"

definition get_git_url :: "plugin_package \<Rightarrow> string option" where
  "get_git_url package =
     (let g0 = None;
          g1 = (if truthy (github_url package) then
                  (let g = github_url package;
                       g' = (case g of
                               Some u \<Rightarrow> if \<not> endswith u ''.git'' then Some (u @ ''.git'') else Some u
                             | None \<Rightarrow> None)
                   in if \<not> is_valid_github_url g' then None else g')
                else g0);
          g2 = (if g1 = None \<and> truthy (repository package)
                   \<and> is_valid_github_url (repository package)
                then repository package else g1);
          g3 = (if g2 = None \<and> truthy (homepage package)
                   \<and> is_valid_github_url (homepage package)
                then homepage package else g2)
      in g3)"

text \<open>
  parsing.py, \<open>get_plugin_packages\<close>, lines 176 to 184. The descriptor is built with
  \<open>github_url\<close> and \<open>commit_hash\<close> unset. When the git packages have an entry under the name
  of the package with \<open>_\<close> replaced by \<open>-\<close>, the descriptor receives the URL and the commit
  of that entry as they are; otherwise it receives the URL that \<open>get_git_url\<close> selects and no
  commit hash. An entry is a \<open>LockGitInfo\<close>, a dictionary with the keys \<open>commit\<close> and \<open>url\<close>,
  here the fields \<open>lock_commit\<close> and \<open>lock_url\<close>.
\<close>

record lock_git_info =
  lock_commit :: string
  lock_url :: string

definition git_package_name :: "string \<Rightarrow> string" where
  "git_package_name name = map (\<lambda>c. if c = CHR ''_'' then CHR ''-'' else c) name"

definition attach_git_info :: "(string \<Rightarrow> lock_git_info option) \<Rightarrow> plugin_package
    \<Rightarrow> plugin_package" where
  "attach_git_info git_packages plugin_package =
     (case git_packages (git_package_name (pname plugin_package)) of
        Some git_info \<Rightarrow>
          plugin_package\<lparr>github_url := Some (lock_url git_info),
                         commit_hash := Some (lock_commit git_info)\<rparr>
      | None \<Rightarrow>
          plugin_package\<lparr>github_url := get_git_url plugin_package, commit_hash := None\<rparr>)"

section \<open>cli.py: the work partitioner\<close>

text \<open>
  Python list slicing \<open>xs[start:stop]\<close> and \<open>xs[start:]\<close> with integer bounds: a negative
  bound counts from the end, and every bound is clamped to \<open>0 .. len(xs)\<close>.
\<close>

definition slice_bound :: "int \<Rightarrow> int \<Rightarrow> int" where
  "slice_bound n i = (if i < 0 then max 0 (i + n) else min i n)"

definition py_slice :: "'a list \<Rightarrow> int \<Rightarrow> int \<Rightarrow> 'a list" where
  "py_slice xs start stop =
     (let n = int (length xs); a = slice_bound n start; b = slice_bound n stop
      in take (nat (b - a)) (drop (nat a) xs))"

definition py_slice_from :: "'a list \<Rightarrow> int \<Rightarrow> 'a list" where
  "py_slice_from xs start = drop (nat (slice_bound (int (length xs)) start)) xs"

text \<open>\<open>//\<close> on Python integers is floor division and raises on a zero divisor.\<close>

definition floordiv :: "int \<Rightarrow> int \<Rightarrow> py_error + int" where
  "floordiv a b = (if b = 0 then Inl ZeroDivisionError else Inr (a div b))"

definition split_packages :: "'a list \<Rightarrow> int \<Rightarrow> int \<Rightarrow> py_error + 'a list" where
  "split_packages packages_to_test ci_node_total ci_node_index =
     (case floordiv (int (length packages_to_test) + ci_node_total - 1) ci_node_total of
        Inl e \<Rightarrow> Inl e
      | Inr packages_per_node \<Rightarrow>
          (let start_index = (ci_node_index - 1) * packages_per_node
           in if ci_node_index = ci_node_total
              then Inr (py_slice_from packages_to_test start_index)
              else (let end_index = start_index + packages_per_node
                    in Inr (py_slice packages_to_test start_index end_index))))"

text \<open>The chunk size of the partitioner as the spec words it: the ceiling of the quotient.\<close>

definition chunk_size :: "'a list \<Rightarrow> int \<Rightarrow> int" where
  "chunk_size ps ntotal = \<lceil>real (length ps) / real_of_int ntotal\<rceil>"

section \<open>The command runner, the logs and the run state\<close>

text \<open>
  Every external process goes through \<open>run_command(argv, cwd, package_logger)\<close> of
  \<open>nomad_plugin_tests.process\<close>, which is not part of the sources at hand. It is a
  parameter of the model: the outcome of a command (\<open>True\<close>, \<open>False\<close>, or an error raised)
  as a function of the commands run before it, oldest first, and of the command itself.
  An element of \<open>argv\<close> is a string or \<open>None\<close>, as a descriptor field may be.
\<close>

record command =
  argv :: "string option list"
  cwd :: "string option"

definition strs :: "string list \<Rightarrow> string option list" where
  "strs = map Some"

text \<open>
  The other collaborators of cli.py: the table \<open>config.TESTS_TO_RUN\<close>, the working
  directory \<open>os.getcwd()\<close>, the directory that \<open>tempfile.TemporaryDirectory()\<close> creates for
  a package, the number \<open>multiprocessing.cpu_count()\<close>, and the order in which the workers
  of the pool finish. That order is a list of picks: each pick, taken modulo the number
  of batches still running, names the batch that finishes next.
\<close>

record environment =
  run_command :: "command list \<Rightarrow> command \<Rightarrow> py_error + bool"
  TESTS_TO_RUN :: "string \<Rightarrow> string option"
  getcwd :: string
  mkdtemp :: "string \<Rightarrow> string"
  cpu_count :: nat
  completion_order :: "nat list"

datatype level = DEBUG | INFO | WARNING | ERROR

text \<open>
  The log messages of cli.py, one constructor per message, with the values the message
  interpolates. The layout of a log line is not modelled.
\<close>

datatype message =
    Package_info plugin_package
  | No_github_url string
  | Failed_clone string
  | Checked_out_commit "string option" string
  | Failed_commit "string option" string
  | Fetched_tag string
  | Failed_tag string
  | Skipping_dev "string option" string
  | No_commit_or_tag string
  | Installing_dev string
  | Failed_venv string
  | Created_venv string
  | Failed_distro string
  | Installed_distro string
  | Failed_dev string
  | Installed_dev string
  | Running_pytest string
  | Tests_failed string
  | Tests_passed string

type_synonym log_record = "string \<times> level \<times> message"

text \<open>What \<open>test_plugins\<close> and \<open>output_package_logs\<close> write to the console.\<close>

datatype console_line =
    No_plugins_found
  | Log_output string "log_record list"
  | Log_file_not_found string string
  | Passed_packages "string list"
  | No_packages_passed
  | Failed_packages "string list"
  | No_packages_failed

text \<open>
  The state a run acts on: the commands run so far (oldest first), the file handlers
  attached to loggers (logger name and log file path), the log files currently open, the
  contents of the log files, the temporary directories that exist, and the console.
\<close>

record state =
  commands :: "command list"
  handlers :: "(string \<times> string) list"
  open_files :: "string list"
  files :: "string \<Rightarrow> log_record list option"
  temp_dirs :: "string list"
  console :: "console_line list"

text \<open>A call either returns a value or raises, and changes the state in both cases.\<close>

type_synonym 'a prog = "state \<Rightarrow> (py_error + 'a) \<times> state"

definition ret :: "'a \<Rightarrow> 'a prog" where
  "ret x s = (Inr x, s)"

definition bind :: "'a prog \<Rightarrow> ('a \<Rightarrow> 'b prog) \<Rightarrow> 'b prog" where
  "bind m f s = (case m s of (Inl e, s') \<Rightarrow> (Inl e, s') | (Inr x, s') \<Rightarrow> f x s')"

definition then_do :: "unit prog \<Rightarrow> 'b prog \<Rightarrow> 'b prog" where
  "then_do m k = bind m (\<lambda>_. k)"

text \<open>\<open>try: body finally: cleanup\<close>: the cleanup runs whether the body returns or raises.\<close>

definition try_finally :: "'a prog \<Rightarrow> (state \<Rightarrow> state) \<Rightarrow> 'a prog" where
  "try_finally body cleanup s = (case body s of (r, s') \<Rightarrow> (r, cleanup s'))"

definition run :: "environment \<Rightarrow> command \<Rightarrow> bool prog" where
  "run env cmd s = (run_command env (commands s) cmd, s\<lparr>commands := commands s @ [cmd]\<rparr>)"

text \<open>
  A record logged on the logger \<open>lg\<close> is appended to the file of every handler attached
  to \<open>lg\<close>. Package loggers are set to level \<open>INFO\<close>, which drops \<open>DEBUG\<close> records.
\<close>

definition append_record :: "log_record \<Rightarrow> string \<Rightarrow> (string \<Rightarrow> log_record list option)
    \<Rightarrow> (string \<Rightarrow> log_record list option)" where
  "append_record r path fs = fs(path \<mapsto> (case fs path of None \<Rightarrow> [] | Some rs \<Rightarrow> rs) @ [r])"

definition emit :: "string \<Rightarrow> level \<Rightarrow> message \<Rightarrow> unit prog" where
  "emit lg lvl msg s =
     (Inr (),
      if lvl = DEBUG then s
      else s\<lparr>files := fold (append_record (lg, lvl, msg))
                          (map snd (filter (\<lambda>h. fst h = lg) (handlers s))) (files s)\<rparr>)"

text \<open>
  \<open>logging.FileHandler(path)\<close> opens the file for appending, creating it when absent, and
  \<open>addHandler\<close> puts the handler last in the logger's list.
\<close>

definition add_file_handler :: "string \<Rightarrow> string \<Rightarrow> unit prog" where
  "add_file_handler lg path s =
     (Inr (),
      s\<lparr>handlers := handlers s @ [(lg, path)],
        open_files := open_files s @ [path],
        files := (files s)(path \<mapsto> (case files s path of None \<Rightarrow> [] | Some rs \<Rightarrow> rs))\<rparr>)"

text \<open>
  \<open>removeHandler(h)\<close> and \<open>h.close()\<close> act on the handler object \<open>h\<close> itself, which is the
  latest entry for its logger and path.
\<close>

definition remove_last :: "'a \<Rightarrow> 'a list \<Rightarrow> 'a list" where
  "remove_last x xs = rev (remove1 x (rev xs))"

definition release_handler :: "string \<Rightarrow> string \<Rightarrow> state \<Rightarrow> state" where
  "release_handler lg path s =
     s\<lparr>handlers := remove_last (lg, path) (handlers s),
       open_files := remove_last path (open_files s)\<rparr>"

text \<open>
  \<open>with tempfile.TemporaryDirectory() as temp_dir: body\<close>: the directory exists during
  the body and is removed on every way out of it.
\<close>

definition with_temporary_directory :: "environment \<Rightarrow> string \<Rightarrow> (string \<Rightarrow> 'a prog) \<Rightarrow> 'a prog" where
  "with_temporary_directory env key body s =
     (let d = mkdtemp env key
      in try_finally (body d) (\<lambda>s'. s'\<lparr>temp_dirs := remove1 d (temp_dirs s')\<rparr>)
           (s\<lparr>temp_dirs := d # temp_dirs s\<rparr>))"

section \<open>cli.py: clone and checkout\<close>

text \<open>
  The commands of \<open>checkout_tag\<close> and \<open>clone_and_checkout\<close>, each with the working directory
  it is run in: \<open>checkout_command\<close> of \<open>checkout_tag\<close>, and \<open>clone_command\<close>, the two
  \<open>fetch_command\<close>s and \<open>checkout_command\<close> of \<open>clone_and_checkout\<close>.
\<close>

definition tag_checkout_command :: "string \<Rightarrow> string \<Rightarrow> command" where
  "tag_checkout_command repo_path tag_name =
     \<lparr>argv = strs [''git'', ''checkout'', tag_name, ''-b'', tag_name @ ''-branch''],
      cwd = Some repo_path\<rparr>"

definition clone_command :: "plugin_package \<Rightarrow> string \<Rightarrow> command" where
  "clone_command package temp_dir =
     \<lparr>argv = strs [''git'', ''clone'', ''--depth'', ''1''] @ [github_url package, Some temp_dir],
      cwd = None\<rparr>"

definition commit_fetch_command :: "plugin_package \<Rightarrow> string \<Rightarrow> command" where
  "commit_fetch_command package temp_dir =
     \<lparr>argv = strs [''git'', ''fetch'', ''origin''] @ [commit_hash package], cwd = Some temp_dir\<rparr>"

definition commit_checkout_command :: "plugin_package \<Rightarrow> string \<Rightarrow> command" where
  "commit_checkout_command package temp_dir =
     \<lparr>argv = strs [''git'', ''checkout''] @ [commit_hash package], cwd = Some temp_dir\<rparr>"

definition tags_fetch_command :: "string \<Rightarrow> command" where
  "tags_fetch_command temp_dir =
     \<lparr>argv = strs [''git'', ''fetch'', ''origin'', ''--tags''], cwd = Some temp_dir\<rparr>"

definition checkout_tag :: "environment \<Rightarrow> string \<Rightarrow> string \<Rightarrow> string \<Rightarrow> bool prog" where
  "checkout_tag env repo_path tag_name package_logger =
     bind (run env (tag_checkout_command repo_path tag_name))
       (\<lambda>ok. if ok then then_do (emit package_logger DEBUG (Fetched_tag tag_name)) (ret True)
             else then_do (emit package_logger ERROR (Failed_tag tag_name)) (ret False))"

text \<open>
  \<open>clone_and_checkout\<close>, lines 104 to 121: the commit stage. Its value is the variable
  \<open>checkout_successful\<close> as it stands at line 122. The second command of
  \<open>run_command(fetch) and run_command(checkout)\<close> runs only when the first returned \<open>True\<close>.
\<close>

definition commit_checkout :: "environment \<Rightarrow> plugin_package \<Rightarrow> string \<Rightarrow> string \<Rightarrow> bool prog" where
  "commit_checkout env package temp_dir package_logger =
     (if truthy (commit_hash package) then
        bind (run env (commit_fetch_command package temp_dir))
          (\<lambda>fetched.
             bind (if fetched
                   then run env (commit_checkout_command package temp_dir)
                   else ret False)
               (\<lambda>checked_out.
                  if checked_out
                  then then_do (emit package_logger INFO
                                  (Checked_out_commit (commit_hash package) (pname package)))
                         (ret True)
                  else then_do (emit package_logger ERROR
                                  (Failed_commit (commit_hash package) (pname package)))
                         (ret False)))
      else ret False)"

text \<open>
  Lines 126 to 156: the block entered when there is no commit hash or the commit stage
  failed. It receives \<open>checkout_successful\<close> and gives back its final value.
\<close>

definition tag_checkout :: "environment \<Rightarrow> plugin_package \<Rightarrow> string \<Rightarrow> string \<Rightarrow> bool \<Rightarrow> bool prog" where
  "tag_checkout env package temp_dir package_logger checkout_successful =
     (let version_tag = (case version package of
                           None \<Rightarrow> None
                         | Some v \<Rightarrow> if \<not> str_in ''.dev'' v then Some v else None)
      in if truthy version_tag then
           (let tag_name_v = ''v'' @ fmt version_tag;
                tag_name_no_v = fmt version_tag
            in bind (run env (tags_fetch_command temp_dir))
                 (\<lambda>fetched.
                    if fetched then
                      bind (if tag_name_v \<noteq> ''v0.0.0''
                            then checkout_tag env temp_dir tag_name_v package_logger
                            else ret False)
                        (\<lambda>with_v.
                           if with_v then ret True
                           else bind (if tag_name_no_v \<noteq> ''0.0.0''
                                      then checkout_tag env temp_dir tag_name_no_v package_logger
                                      else ret False)
                                  (\<lambda>without_v.
                                     if without_v then ret True else ret checkout_successful))
                    else ret checkout_successful))
         else if (case version package of None \<Rightarrow> False | Some v \<Rightarrow> v \<noteq> [] \<and> str_in ''.dev'' v)
         then then_do (emit package_logger WARNING (Skipping_dev (version package) (pname package)))
                (ret True)
         else then_do (emit package_logger WARNING (No_commit_or_tag (pname package)))
                (ret True))"

definition clone_and_checkout :: "environment \<Rightarrow> plugin_package \<Rightarrow> string \<Rightarrow> string \<Rightarrow> bool prog" where
  "clone_and_checkout env package temp_dir package_logger =
     bind (run env (clone_command package temp_dir))
       (\<lambda>cloned.
          if \<not> cloned
          then then_do (emit package_logger ERROR (Failed_clone (pname package))) (ret False)
          else bind (commit_checkout env package temp_dir package_logger)
                 (\<lambda>checkout_successful.
                    if \<not> truthy (commit_hash package) \<or> \<not> checkout_successful
                    then tag_checkout env package temp_dir package_logger checkout_successful
                    else ret checkout_successful))"

section \<open>cli.py: the package test runner\<close>

text \<open>
  Lines 194 to 278, the stages after a successful checkout. The value is what
  \<open>clone_and_test_package\<close> returns: \<open>None\<close> for a bare \<open>return\<close>, else \<open>True\<close> or \<open>False\<close>.
\<close>

definition venv_command :: "string \<Rightarrow> command" where
  "venv_command temp_dir =
     \<lparr>argv = strs [''uv'', ''venv'', ''-p'', ''3.12'', ''--seed'', path_join temp_dir ''venv''],
      cwd = None\<rparr>"

definition install_and_test :: "environment \<Rightarrow> plugin_package \<Rightarrow> string \<Rightarrow> string \<Rightarrow> bool option prog" where
  "install_and_test env package temp_dir package_logger =
     then_do (emit package_logger INFO (Installing_dev (pname package)))
     (let venv = path_join temp_dir ''venv''
      in bind (run env (venv_command temp_dir))
     (\<lambda>venv_ok.
        if \<not> venv_ok
        then then_do (emit package_logger ERROR (Failed_venv (pname package))) (ret None)
        else
     then_do (emit package_logger INFO (Created_venv (pname package)))
     (let python_path = path_join (path_join venv ''bin'') ''python'';
          requirements_file = path_join (getcwd env) ''requirements.txt''
      in bind (run env \<lparr>argv = strs [''uv'', ''pip'', ''install'', ''-r'', requirements_file,
                                       ''--reinstall'', ''--quiet'', ''-p'', python_path],
                         cwd = Some (getcwd env)\<rparr>)
     (\<lambda>distro_ok.
        if \<not> distro_ok
        then then_do (emit package_logger ERROR (Failed_distro (pname package))) (ret None)
        else
     then_do (emit package_logger INFO (Installed_distro (pname package)))
     (bind (run env \<lparr>argv = strs [''uv'', ''pip'', ''install'', ''-r'',
                                    temp_dir @ ''/pyproject.toml'', ''--all-extras'',
                                    ''-p'', python_path, ''-c'', requirements_file],
                      cwd = Some temp_dir\<rparr>)
     (\<lambda>dev_ok.
        if \<not> dev_ok
        then then_do (emit package_logger ERROR (Failed_dev (pname package))) (ret None)
        else
     then_do (emit package_logger INFO (Installed_dev (pname package)))
     (then_do (emit package_logger INFO (Running_pytest (pname package)))
     (let pytest_command =
            strs [python_path, ''-m'', ''pytest'', ''-p'', ''no:warnings'']
            @ (if truthy (TESTS_TO_RUN env (pname package))
               then [Some (path_join temp_dir (fmt (TESTS_TO_RUN env (pname package))))]
               else [Some temp_dir])
      in bind (run env \<lparr>argv = pytest_command, cwd = Some temp_dir\<rparr>)
     (\<lambda>tests_ok.
        if \<not> tests_ok
        then then_do (emit package_logger ERROR (Tests_failed (pname package))) (ret (Some False))
        else then_do (emit package_logger INFO (Tests_passed (pname package)))
               (ret (Some True)))))))))))"

text \<open>
  The body of the \<open>try\<close> block, lines 183 to 278.
\<close>

definition package_pipeline :: "environment \<Rightarrow> plugin_package \<Rightarrow> string \<Rightarrow> bool option prog" where
  "package_pipeline env package package_logger =
     then_do (emit package_logger INFO (Package_info package))
       (if github_url package = None
        then then_do (emit package_logger WARNING (No_github_url (pname package))) (ret None)
        else with_temporary_directory env (pname package)
               (\<lambda>temp_dir.
                  bind (clone_and_checkout env package temp_dir package_logger)
                    (\<lambda>ok. if \<not> ok then ret None
                          else install_and_test env package temp_dir package_logger)))"

text \<open>
  \<open>clone_and_test_package\<close>: the package logger is the logger named after the package. The
  clearing of the root logger's handlers has no effect on what the model observes.
\<close>

definition log_file_of :: "string \<Rightarrow> string" where
  "log_file_of package_name = path_join (''logs/'' @ package_name) ''test_output.log''"

definition clone_and_test_package :: "environment \<Rightarrow> plugin_package \<Rightarrow> bool option prog" where
  "clone_and_test_package env package =
     (let package_name = pname package;
          log_file_path = log_file_of package_name
      in then_do (add_file_handler package_name log_file_path)
           (try_finally (package_pipeline env package package_name)
              (release_handler package_name log_file_path)))"

section \<open>cli.py: dispatch, aggregation and exit status\<close>

text \<open>
  \<open>multiprocessing.pool\<close>, as far as \<open>Pool(processes).map(f, iterable)\<close> goes.

  \<open>mapstar\<close>: a worker runs a batch with \<open>list(map(f, batch))\<close>, so a call that raises ends
  the batch.
\<close>

fun mapstar :: "('a \<Rightarrow> 'b prog) \<Rightarrow> 'a list \<Rightarrow> 'b list prog" where
  "mapstar f [] = ret []"
| "mapstar f (x # xs) = bind (f x) (\<lambda>r. bind (mapstar f xs) (\<lambda>rs. ret (r # rs)))"

text \<open>\<open>Pool._get_tasks\<close>: the batches, \<open>sz\<close> elements each, the last one possibly shorter.\<close>

function get_tasks :: "nat \<Rightarrow> 'a list \<Rightarrow> 'a list list" where
  "get_tasks sz it =
     (if sz = 0 \<or> it = [] then [] else take sz it # get_tasks sz (drop sz it))"
  by pat_completeness auto
termination
  by (relation "measure (\<lambda>(sz, it). length it)") auto

text \<open>
  Every batch is run, and each gives the list of its results or the error that ended it.
  The effects of the batches on the state are put one after the other in the order of
  the batches; how the workers interleave is not modelled.
\<close>

fun run_batches :: "('a \<Rightarrow> 'b prog) \<Rightarrow> 'a list list \<Rightarrow> state
    \<Rightarrow> (py_error + 'b list) list \<times> state" where
  "run_batches f [] s = ([], s)"
| "run_batches f (batch # rest) s =
     (case mapstar f batch s of
        (outcome, s1) \<Rightarrow>
          (case run_batches f rest s1 of (outcomes, s2) \<Rightarrow> (outcome # outcomes, s2)))"

text \<open>
  The order in which the outcomes reach the parent: the next one is the pick modulo the
  number of those still out; when the picks are used up the rest arrives in order.
\<close>

function arrange :: "nat list \<Rightarrow> 'a list \<Rightarrow> 'a list" where
  "arrange picks [] = []"
| "arrange [] (x # xs) = x # xs"
| "arrange (k # picks) (x # xs) =
     (let j = k mod length (x # xs)
      in (x # xs) ! j # arrange picks (take j (x # xs) @ drop (Suc j) (x # xs)))"
  by pat_completeness auto
termination
  by (relation "measure (\<lambda>(picks, xs). length xs)") auto

text \<open>The list assignment \<open>v[a:b] = r\<close> for bounds that are not negative.\<close>

definition slice_assign :: "'a list \<Rightarrow> nat \<Rightarrow> nat \<Rightarrow> 'a list \<Rightarrow> 'a list" where
  "slice_assign v a b r = take a v @ r @ drop (max a b) v"

text \<open>
  \<open>MapResult._set(i, (success, result))\<close>. The value of the map result is the list of
  results as long as every outcome received was a success, and from the first failure
  received on the error of that failure.
\<close>

definition MapResult_set :: "nat \<Rightarrow> nat \<times> (py_error + 'b list) \<Rightarrow> py_error + 'b list
    \<Rightarrow> py_error + 'b list" where
  "MapResult_set chunksize arrival value =
     (case arrival of
        (i, success_result) \<Rightarrow>
          (case value of
             Inl e \<Rightarrow> Inl e
           | Inr v \<Rightarrow>
               (case success_result of
                  Inr result \<Rightarrow> Inr (slice_assign v (i * chunksize) ((i + 1) * chunksize) result)
                | Inl e \<Rightarrow> Inl e)))"

text \<open>
  \<open>Pool(processes=cpu_count()).map(f, iterable)\<close>: the pool refuses less than one process;
  the chunk size is the length divided by four times the number of processes, rounded
  up; the map result starts as a list of \<open>None\<close>, receives the outcome of every batch in
  the order the workers finish, and \<open>get()\<close> returns its value or raises it.
\<close>

definition pool_map :: "environment \<Rightarrow> ('a \<Rightarrow> 'b option prog) \<Rightarrow> 'a list
    \<Rightarrow> 'b option list prog" where
  "pool_map env f iterable s =
     (if cpu_count env < 1 then (Inl ValueError, s)
      else
        (let n = length iterable;
             chunksize = (if n = 0 then 0
                          else n div (cpu_count env * 4)
                               + (if n mod (cpu_count env * 4) \<noteq> 0 then 1 else 0));
             task_batches = get_tasks chunksize iterable
         in case run_batches f task_batches s of
              (outcomes, s') \<Rightarrow>
                (fold (MapResult_set chunksize)
                   (arrange (completion_order env) (zip [0..<length outcomes] outcomes))
                   (Inr (replicate n None)),
                 s')))"

text \<open>
  Lines 316 to 321: the loop over \<open>enumerate(packages_to_test)\<close>, from index \<open>i\<close> on, with
  the two lists built so far. \<open>results[i]\<close> is true only for the value \<open>True\<close>.
\<close>

fun classify :: "nat \<Rightarrow> plugin_package list \<Rightarrow> bool option list
    \<Rightarrow> string list \<times> string list \<Rightarrow> py_error + (string list \<times> string list)" where
  "classify i [] results acc = Inr acc"
| "classify i (package # rest) results (passed_packages, failed_packages) =
     (if i < length results then
        (if results ! i = Some True
         then classify (Suc i) rest results (passed_packages @ [pname package], failed_packages)
         else classify (Suc i) rest results (passed_packages, failed_packages @ [pname package]))
      else Inl IndexError)"

definition run_tests_parallel :: "environment \<Rightarrow> plugin_package list
    \<Rightarrow> (string list \<times> string list) prog" where
  "run_tests_parallel env packages_to_test =
     bind (pool_map env (clone_and_test_package env) packages_to_test)
       (\<lambda>results s. (classify 0 packages_to_test results ([], []), s))"

definition print :: "console_line \<Rightarrow> unit prog" where
  "print line s = (Inr (), s\<lparr>console := console s @ [line]\<rparr>)"

fun output_package_logs :: "plugin_package list \<Rightarrow> unit prog" where
  "output_package_logs [] = ret ()"
| "output_package_logs (package # rest) =
     (let package_name = pname package;
          log_file_path = ''logs/'' @ package_name @ ''/test_output.log''
      in then_do (\<lambda>s. case files s log_file_path of
                         Some log_contents \<Rightarrow> print (Log_output package_name log_contents) s
                       | None \<Rightarrow> print (Log_file_not_found package_name log_file_path) s)
           (output_package_logs rest))"

text \<open>
  \<open>test_plugins\<close>, given the mapping that \<open>get_plugin_packages\<close> returned (its items in
  insertion order). The value \<open>Inr n\<close> is the exit status \<open>n\<close> of the process, by
  \<open>sys.exit(n)\<close> or by reaching the end (status 0); \<open>Inl e\<close> is an error nobody caught.
\<close>

definition plugins_to_skip_list :: "string option \<Rightarrow> string list" where
  "plugins_to_skip_list plugins_to_skip =
     (if truthy plugins_to_skip then map strip (split_on CHR '','' (fmt plugins_to_skip))
      else [])"

definition packages_after_skip :: "(string \<times> plugin_package) list \<Rightarrow> string option
    \<Rightarrow> plugin_package list" where
  "packages_after_skip plugin_packages plugins_to_skip =
     map snd (filter (\<lambda>(name, package). name \<notin> set (plugins_to_skip_list plugins_to_skip))
                plugin_packages)"

definition test_plugins :: "environment \<Rightarrow> (string \<times> plugin_package) list \<Rightarrow> string option
    \<Rightarrow> int \<Rightarrow> int \<Rightarrow> int prog" where
  "test_plugins env plugin_packages plugins_to_skip ci_node_total ci_node_index =
     (let packages_to_test = packages_after_skip plugin_packages plugins_to_skip
      in case split_packages packages_to_test ci_node_total ci_node_index of
           Inl e \<Rightarrow> (\<lambda>s. (Inl e, s))
         | Inr packages_to_test \<Rightarrow>
             if packages_to_test = []
             then then_do (print No_plugins_found) (ret 0)
             else bind (run_tests_parallel env packages_to_test)
                    (\<lambda>(passed_packages, failed_packages).
                       then_do (output_package_logs packages_to_test)
                         (then_do (if passed_packages \<noteq> []
                                   then print (Passed_packages passed_packages)
                                   else print No_packages_passed)
                            (if failed_packages \<noteq> []
                             then then_do (print (Failed_packages failed_packages)) (ret 1)
                             else then_do (print No_packages_failed) (ret 0)))))"

section \<open>Concrete inputs\<close>

text \<open>A descriptor with a name and nothing else, from which the examples are built.\<close>

definition example_package :: plugin_package where
  "example_package =
     \<lparr>pname = ''example'', description = None, version = None, homepage = None,
      documentation = None, repository = None, github_url = None, commit_hash = None,
      entry_points = []\<rparr>"

text \<open>An environment in which every command succeeds, and the state before anything ran.\<close>

definition all_succeed :: environment where
  "all_succeed =
     \<lparr>run_command = (\<lambda>history cmd. Inr True), TESTS_TO_RUN = (\<lambda>name. None),
      getcwd = ''/work'', mkdtemp = (\<lambda>name. ''/tmp/'' @ name), cpu_count = 4,
      completion_order = []\<rparr>"

text \<open>The same, except that fetching a single commit from the remote fails.\<close>

definition commit_fetch_fails :: environment where
  "commit_fetch_fails =
     all_succeed\<lparr>run_command :=
       (\<lambda>history cmd. Inr (take 3 (argv cmd) \<noteq> strs [''git'', ''fetch'', ''origin'']
                             \<or> argv cmd = strs [''git'', ''fetch'', ''origin'', ''--tags'']))\<rparr>"

definition initial_state :: state where
  "initial_state =
     \<lparr>commands = [], handlers = [], open_files = [], files = (\<lambda>path. None),
      temp_dirs = [], console = []\<rparr>"

text \<open>Descriptors with a pinned commit, with the placeholder version, and with a dev version.\<close>

definition pinned_package :: plugin_package where
  "pinned_package =
     example_package\<lparr>github_url := Some ''https://github.com/org/example.git'',
       version := Some ''1.2.3'', commit_hash := Some ''abc123''\<rparr>"

definition placeholder_package :: plugin_package where
  "placeholder_package =
     example_package\<lparr>github_url := Some ''https://github.com/org/example.git'',
       version := Some ''0.0.0''\<rparr>"

definition dev_package :: plugin_package where
  "dev_package =
     example_package\<lparr>github_url := Some ''https://github.com/org/example.git'',
       version := Some ''1.2.3.dev0''\<rparr>"

text \<open>
  An environment in which creating the virtual environment of the package \<open>example\<close> raises,
  a second pinned package, and a package whose only URL is not on the hosting domain, as
  discovery hands it over.
\<close>

definition venv_raises :: environment where
  "venv_raises =
     all_succeed\<lparr>run_command :=
       (\<lambda>history cmd. if cmd = venv_command ''/tmp/example''
                       then Inl (Raised ''OSError'') else Inr True)\<rparr>"

definition other_package :: plugin_package where
  "other_package = pinned_package\<lparr>pname := ''other''\<rparr>"

definition unresolvable_package :: plugin_package where
  "unresolvable_package =
     attach_git_info (\<lambda>name. None) (example_package\<lparr>homepage := Some ''https://example.com''\<rparr>)"

text \<open>A package whose lock entry points to another host.\<close>

definition locked_elsewhere :: plugin_package where
  "locked_elsewhere =
     attach_git_info
       (\<lambda>name. if name = ''example''
                then Some \<lparr>lock_commit = ''abc123'',
                           lock_url = ''https://gitlab.com/org/example.git''\<rparr>
                else None)
       example_package"

section \<open>Relations between the state before and after a call\<close>

text \<open>
  A call preserves a relation when the state it leaves is related to the state it was
  started in, whether it returns or raises.
\<close>

definition preserves :: "(state \<Rightarrow> state \<Rightarrow> bool) \<Rightarrow> 'a prog \<Rightarrow> bool" where
  "preserves R m = (\<forall>s. R s (snd (m s)))"

definition commands_grow :: "state \<Rightarrow> state \<Rightarrow> bool" where
  "commands_grow s s' = prefix (commands s) (commands s')"



section \<open>Classification by position and by name\<close>

text \<open>
  The names of the packages whose result, at the same position of the result list, is
  \<open>True\<close>, and the names of the others.
\<close>

definition passed_of :: "plugin_package list \<Rightarrow> bool option list \<Rightarrow> string list" where
  "passed_of ps rs = map (pname \<circ> fst) (filter (\<lambda>(p, r). r = Some True) (zip ps rs))"

definition failed_of :: "plugin_package list \<Rightarrow> bool option list \<Rightarrow> string list" where
  "failed_of ps rs = map (pname \<circ> fst) (filter (\<lambda>(p, r). r \<noteq> Some True) (zip ps rs))"


section \<open>Strings and URL validation\<close>

lemma str_in_sublist: "str_in n h = sublist n h"
  by (induction h) (auto simp: sublist_Cons_right)

lemma str_in_iff: "str_in n h = (\<exists>ps ss. h = ps @ n @ ss)"
  by (simp add: str_in_sublist sublist_def)

lemma endswith_iff: "endswith s suf = (\<exists>ps. s = ps @ suf)"
  by (simp add: endswith_def suffix_to_prefix [symmetric] suffix_def)

lemma prefix_dot_git:
  "prefix xs ''.git'' \<Longrightarrow> xs \<noteq> [] \<Longrightarrow> last xs \<in> set ''.git''"
  by (auto simp: prefix_Cons prefix_def Cons_eq_append_conv append_eq_Cons_conv)

lemma github_com_dot_git:
  "str_in ''github.com'' (u @ ''.git'') = str_in ''github.com'' u"
proof -
  define G D where "G = ''github.com''" and "D = ''.git''"
  have a: "sublist G u" if e: "G = xs1 @ xs2" and s: "suffix xs1 u" and p: "prefix xs2 D"
    for xs1 xs2
  proof (cases "xs2 = []")
    case True
    with e s show ?thesis by simp
  next
    case False
    with e have "last xs2 = last G" by simp
    then have "last xs2 = CHR ''m''" by (simp add: G_def)
    with prefix_dot_git [OF p [unfolded D_def] False] show ?thesis by simp
  qed
  have b: "\<not> sublist G D"
    unfolding G_def D_def by (simp add: sublist_code)
  have "sublist G (u @ D) = sublist G u"
    unfolding sublist_append using a b by blast
  then show ?thesis
    unfolding G_def D_def str_in_sublist .
qed

lemma truthy_simps [simp]: "truthy None = False" "truthy (Some s) = (s \<noteq> [])"
  by (simp_all add: truthy_def)

lemma valid_None [simp]: "\<not> is_valid_github_url None"
  by (simp add: is_valid_github_url_def)

lemma valid_truthy: "is_valid_github_url u \<Longrightarrow> truthy u"
  by (auto simp: is_valid_github_url_def truthy_def split: option.splits)

lemma valid_dot_git:
  "is_valid_github_url (Some (g @ ''.git'')) = is_valid_github_url (Some g)"
  by (simp add: is_valid_github_url_def github_com_dot_git)

lemma get_git_url_first:
  assumes "github_url p = Some g" "is_valid_github_url (Some g)"
  shows "get_git_url p = Some (if endswith g ''.git'' then g else g @ ''.git'')"
  using assms valid_truthy [of "Some g"]
  by (simp add: get_git_url_def Let_def valid_dot_git)

lemma get_git_url_rest:
  assumes "\<not> is_valid_github_url (github_url p)"
  shows "get_git_url p =
     (if is_valid_github_url (repository p) then repository p
      else if is_valid_github_url (homepage p) then homepage p else None)"
proof (cases "github_url p")
  case None
  then show ?thesis
    using valid_truthy [of "repository p"] valid_truthy [of "homepage p"]
    by (auto simp: get_git_url_def Let_def truthy_def)
next
  case (Some u)
  with assms have "\<not> is_valid_github_url (Some u)" "\<not> is_valid_github_url (Some (u @ ''.git''))"
    by (simp_all add: valid_dot_git)
  then show ?thesis
    using Some valid_truthy [of "repository p"] valid_truthy [of "homepage p"]
    by (auto simp: get_git_url_def Let_def)
qed

lemma get_git_url_example:
  "get_git_url (p\<lparr>github_url := Some ''https://github.com/org/repo''\<rparr>)
        = Some ''https://github.com/org/repo.git''"
  by (simp add: get_git_url_def Let_def truthy_def endswith_def is_valid_github_url_def)

lemma valid_iff: "is_valid_github_url url = (\<exists>ps ss. url = Some (ps @ ''github.com'' @ ss))"
  by (cases url) (simp_all add: is_valid_github_url_def str_in_iff)

lemma valid_example: "is_valid_github_url (Some ''https://evil.example/x?ref=github.com'')"
  by (simp add: is_valid_github_url_def)

lemma get_git_url_path_example:
  "get_git_url (p\<lparr>github_url := None, repository := Some ''https://evil.example/x?ref=github.com''\<rparr>)
        = Some ''https://evil.example/x?ref=github.com''"
  by (simp add: get_git_url_def Let_def truthy_def is_valid_github_url_def)

text \<open>
  Claim C5. The clone URL is \<open>github_url\<close> with \<open>.git\<close> appended when missing, if it
  passes the hosting-domain validation; else \<open>repository\<close> if that passes; else \<open>homepage\<close>
  if that passes; else there is no URL. The URL \<open>https://github.com/org/repo\<close> resolves
  to \<open>https://github.com/org/repo.git\<close>.
\<close>

theorem get_git_url_priority:
  "(github_url p = Some g \<and> is_valid_github_url (Some g) \<longrightarrow>
      get_git_url p = Some (if endswith g ''.git'' then g else g @ ''.git''))
   \<and> (\<not> is_valid_github_url (github_url p) \<and> is_valid_github_url (repository p) \<longrightarrow>
      get_git_url p = repository p)
   \<and> (\<not> is_valid_github_url (github_url p) \<and> \<not> is_valid_github_url (repository p)
        \<and> is_valid_github_url (homepage p) \<longrightarrow>
      get_git_url p = homepage p)
   \<and> (\<not> is_valid_github_url (github_url p) \<and> \<not> is_valid_github_url (repository p)
        \<and> \<not> is_valid_github_url (homepage p) \<longrightarrow>
      get_git_url p = None)
   \<and> get_git_url (p\<lparr>github_url := Some ''https://github.com/org/repo''\<rparr>)
        = Some ''https://github.com/org/repo.git''"
proof (intro conjI impI)
  show "get_git_url (p\<lparr>github_url := Some ''https://github.com/org/repo''\<rparr>)
        = Some ''https://github.com/org/repo.git''"
    by (rule get_git_url_example)
qed (simp_all add: get_git_url_first get_git_url_rest)

theorem get_git_url_priority_witness:
  "get_git_url (example_package\<lparr>github_url := Some ''https://github.com/a/b.git'',
                  repository := Some ''https://github.com/c/d''\<rparr>)
     = Some ''https://github.com/a/b.git''
   \<and> get_git_url (example_package\<lparr>github_url := Some ''https://gitlab.com/a/b'',
                  repository := Some ''https://github.com/c/d''\<rparr>)
     = Some ''https://github.com/c/d''
   \<and> get_git_url (example_package\<lparr>repository := Some ''https://gitlab.com/c/d'',
                  homepage := Some ''https://github.com/e/f''\<rparr>)
     = Some ''https://github.com/e/f''
   \<and> get_git_url (example_package\<lparr>homepage := Some ''https://example.com''\<rparr>) = None"
  using
    get_git_url_priority [of "example_package\<lparr>github_url := Some ''https://github.com/a/b.git'',
                  repository := Some ''https://github.com/c/d''\<rparr>" "''https://github.com/a/b.git''"]
    get_git_url_priority [of "example_package\<lparr>github_url := Some ''https://gitlab.com/a/b'',
                  repository := Some ''https://github.com/c/d''\<rparr>"]
    get_git_url_priority [of "example_package\<lparr>repository := Some ''https://gitlab.com/c/d'',
                  homepage := Some ''https://github.com/e/f''\<rparr>"]
    get_git_url_priority [of "example_package\<lparr>homepage := Some ''https://example.com''\<rparr>"]
  by (simp add: example_package_def is_valid_github_url_def endswith_def)

text \<open>
  Claim C10. The validation accepts a URL exactly when it is a string in which
  \<open>github.com\<close> occurs somewhere. Neither scheme nor host is looked at: a URL with
  \<open>github.com\<close> only in its query passes and is selected as the clone URL.
\<close>

theorem is_valid_github_url_substring:
  "is_valid_github_url url = (\<exists>ps ss. url = Some (ps @ ''github.com'' @ ss))
   \<and> is_valid_github_url (Some ''https://evil.example/x?ref=github.com'')
   \<and> get_git_url (p\<lparr>github_url := None, repository := Some ''https://evil.example/x?ref=github.com''\<rparr>)
        = Some ''https://evil.example/x?ref=github.com''"
  by (intro conjI valid_iff valid_example get_git_url_path_example)

section \<open>The partition covers the list\<close>

lemma py_slice_nonneg:
  "0 \<le> a \<Longrightarrow> a \<le> b \<Longrightarrow> py_slice xs a b = take (nat b - nat a) (drop (nat a) xs)"
  by (auto simp: py_slice_def slice_bound_def Let_def min_def nat_diff_distrib)

lemma py_slice_from_nonneg:
  "0 \<le> a \<Longrightarrow> py_slice_from xs a = drop (nat a) xs"
  by (auto simp: py_slice_from_def slice_bound_def min_def)

lemma slices_take:
  assumes "0 \<le> c"
  shows "concat (map (\<lambda>i. py_slice ps ((i - 1) * c) ((i - 1) * c + c)) [1..int m]) = take (m * nat c) ps"
    (is "concat (map ?f _) = _")
proof (induction m)
  case 0
  then show ?case by simp
next
  case (Suc m)
  have u: "[1..int (Suc m)] = [1..int m] @ [int (Suc m)]"
    by (simp add: upto_rec2)
  have a: "0 \<le> int m * c" using assms by simp
  have n: "nat (int m * c) = m * nat c" using assms by (simp add: nat_mult_distrib)
  have f: "?f (int (Suc m)) = take (nat c) (drop (m * nat c) ps)"
    using assms a n by (simp add: py_slice_nonneg nat_add_distrib)
  have "concat (map ?f [1..int (Suc m)]) = concat (map ?f [1..int m]) @ ?f (int (Suc m))"
    unfolding u by simp
  also have "\<dots> = take (m * nat c) ps @ take (nat c) (drop (m * nat c) ps)"
    unfolding Suc.IH f ..
  also have "\<dots> = take (m * nat c + nat c) ps"
    by (simp only: take_add)
  also have "m * nat c + nat c = Suc m * nat c" by simp
  finally show ?case .
qed

lemma ceil_div_aux:
  assumes "0 < (t::int)"
  shows "(n + t - 1) div t = - ((- n) div t)"
proof (cases "n mod t = 0")
  case True
  then obtain q where q: "n = t * q" by auto
  have "(t * q + (t - 1)) div t = q + (t - 1) div t"
    using assms by simp
  moreover have "(t - 1) div t = 0" using assms by (simp add: div_pos_pos_trivial)
  ultimately have "(n + t - 1) div t = q" using q by (simp add: algebra_simps)
  moreover have "(- n) div t = - q" using assms q by (simp add: zdiv_zminus1_eq_if)
  ultimately show ?thesis by simp
next
  case False
  define q r where "q = n div t" and "r = n mod t"
  have n: "n = t * q + r" by (simp add: q_def r_def)
  have "0 \<le> r" "r < t" using assms by (auto simp: r_def)
  with False have r: "1 \<le> r" "r < t" by (auto simp: r_def)
  have "(t * (q + 1) + (r - 1)) div t = q + 1 + (r - 1) div t"
    using assms by simp
  moreover have "(r - 1) div t = 0" using r by (simp add: div_pos_pos_trivial)
  ultimately have "(n + t - 1) div t = q + 1" using n by (simp add: algebra_simps)
  then show ?thesis using assms False
    by (simp add: zdiv_zminus1_eq_if q_def)
qed

lemma ceil_div:
  assumes "0 < (t::int)"
  shows "(n + t - 1) div t = \<lceil>real_of_int n / real_of_int t\<rceil>"
  using ceil_div_aux [OF assms] by (simp add: ceiling_divide_eq_div)

lemma chunk_size_nonneg: "1 \<le> ntotal \<Longrightarrow> 0 \<le> chunk_size ps ntotal"
proof -
  assume "1 \<le> ntotal"
  then have "0 \<le> real (length ps) / real_of_int ntotal" by simp
  then show ?thesis unfolding chunk_size_def by linarith
qed

lemma packages_per_node:
  "1 \<le> ntotal \<Longrightarrow> floordiv (int (length ps) + ntotal - 1) ntotal = Inr (chunk_size ps ntotal)"
  using ceil_div [of ntotal "int (length ps)"] by (simp add: floordiv_def chunk_size_def)

lemma split_packages_slice:
  assumes "1 \<le> nindex" "nindex \<le> ntotal"
  shows "split_packages ps ntotal nindex =
     Inr (if nindex = ntotal then drop (nat ((nindex - 1) * chunk_size ps ntotal)) ps
          else take (nat (chunk_size ps ntotal)) (drop (nat ((nindex - 1) * chunk_size ps ntotal)) ps))"
proof -
  have t: "1 \<le> ntotal" using assms by simp
  note c = chunk_size_nonneg [OF t, of ps]
  have s: "0 \<le> (nindex - 1) * chunk_size ps ntotal" using assms c by simp
  show ?thesis
    using assms c s
    by (simp add: split_packages_def packages_per_node [OF t] Let_def
        py_slice_from_nonneg py_slice_nonneg nat_add_distrib)
qed

lemma split_packages_cover:
  assumes "1 \<le> ntotal"
  shows "\<exists>slices. map (split_packages ps ntotal) [1..ntotal] = map Inr slices \<and> concat slices = ps"
proof -
  define c where "c = chunk_size ps ntotal"
  define m where "m = nat (ntotal - 1)"
  have c: "0 \<le> c" unfolding c_def using assms by (rule chunk_size_nonneg)
  have tm: "ntotal = int m + 1" using assms by (simp add: m_def)
  let ?f = "\<lambda>i. py_slice ps ((i - 1) * c) ((i - 1) * c + c)"
  let ?slices = "map ?f [1..int m] @ [drop (m * nat c) ps]"
  have u: "[1..ntotal] = [1..int m] @ [ntotal]"
    using tm by (simp add: upto_rec2)
  have inner: "split_packages ps ntotal i = Inr (?f i)" if "i \<in> set [1..int m]" for i
  proof -
    have "i \<noteq> ntotal" using that tm by simp
    then show ?thesis
      unfolding split_packages_def packages_per_node [OF assms] by (simp add: c_def Let_def)
  qed
  have last: "split_packages ps ntotal ntotal = Inr (drop (m * nat c) ps)"
  proof -
    have "nat ((ntotal - 1) * c) = m * nat c"
      using c tm by (simp add: nat_mult_distrib)
    then show ?thesis
      using split_packages_slice [of ntotal ntotal ps] assms by (simp add: c_def)
  qed
  have "map (split_packages ps ntotal) [1..ntotal] = map Inr ?slices"
    unfolding u using inner last by simp
  moreover have "concat ?slices = ps"
    using slices_take [OF c, of ps m] by simp
  ultimately show ?thesis by blast
qed

text \<open>
  Claim C3. For \<open>1 \<le> node_index \<le> node_total\<close> the slice starts at
  \<open>(node_index - 1) * chunk\<close> with \<open>chunk = ceil(len / node_total)\<close>; a node that is not
  the last gets \<open>chunk\<close> packages from there, the last node everything from there on. The
  slices of the nodes \<open>1 .. node_total\<close>, one after the other, are the input list: nothing
  is left out and no position occurs twice.
\<close>

theorem split_packages_partition:
  "(1 \<le> nindex \<and> nindex \<le> ntotal \<longrightarrow>
      split_packages ps ntotal nindex =
        Inr (let chunk = \<lceil>real (length ps) / real_of_int ntotal\<rceil>;
                 start = (nindex - 1) * chunk
             in if nindex = ntotal then drop (nat start) ps
                else take (nat chunk) (drop (nat start) ps)))
   \<and> (1 \<le> ntotal \<longrightarrow>
      (\<exists>slices. map (split_packages ps ntotal) [1..ntotal] = map Inr slices
          \<and> concat slices = ps))"
  using split_packages_slice [of nindex ntotal ps] split_packages_cover [of ntotal ps]
  by (simp add: chunk_size_def Let_def)

theorem split_packages_partition_witness:
  "(1::int) \<le> 2 \<and> split_packages [1, 2, 3, 4, 5 :: nat] 2 1 = Inr [1, 2, 3]
   \<and> split_packages [1, 2, 3, 4, 5 :: nat] 2 2 = Inr [4, 5]
   \<and> (\<exists>slices. map (split_packages [1, 2, 3, 4, 5 :: nat] 2) [1..2] = map Inr slices
          \<and> concat slices = [1, 2, 3, 4, 5])"
  using split_packages_partition [of 1 2 "[1, 2, 3, 4, 5 :: nat]"]
    split_packages_partition [of 2 2 "[1, 2, 3, 4, 5 :: nat]"]
  by (simp add: Let_def)

section \<open>Running the model\<close>

lemmas prog_defs = ret_def bind_def then_do_def try_finally_def run_def emit_def

lemma emit_commands [simp]: "commands (snd (emit lg lvl m s)) = commands s"
  by (simp add: emit_def)

lemma preservesD: "preserves R m \<Longrightarrow> R s (snd (m s))"
  by (simp add: preserves_def)

lemma preserves_ret: "reflp R \<Longrightarrow> preserves R (ret x)"
  by (simp add: preserves_def ret_def reflp_def)

lemma preserves_bind:
  assumes "transp R" "preserves R m" "\<And>x. preserves R (f x)"
  shows "preserves R (bind m f)"
proof -
  have "R s (snd (bind m f s))" for s
  proof (cases "m s")
    case (Pair r s1)
    have 1: "R s s1" using preservesD [OF assms(2), of s] Pair by simp
    show ?thesis
    proof (cases r)
      case (Inl e)
      with Pair 1 show ?thesis by (simp add: bind_def)
    next
      case (Inr x)
      have "R s1 (snd (f x s1))" using preservesD [OF assms(3)] .
      with 1 assms(1) have "R s (snd (f x s1))" by (meson transpD)
      with Pair Inr show ?thesis by (simp add: bind_def)
    qed
  qed
  then show ?thesis by (simp add: preserves_def)
qed

lemma preserves_then_do:
  "transp R \<Longrightarrow> preserves R m \<Longrightarrow> preserves R k \<Longrightarrow> preserves R (then_do m k)"
  unfolding then_do_def by (rule preserves_bind)

lemma preserves_if:
  "preserves R a \<Longrightarrow> preserves R b \<Longrightarrow> preserves R (if c then a else b)"
  by simp

lemma preserves_try_finally:
  assumes "transp R" "preserves R body" "\<And>s. R s (cleanup s)"
  shows "preserves R (try_finally body cleanup)"
proof -
  have "R s (snd (try_finally body cleanup s))" for s
  proof (cases "body s")
    case (Pair r s1)
    have "R s s1" using preservesD [OF assms(2), of s] Pair by simp
    with assms(1,3) have "R s (cleanup s1)" by (meson transpD)
    with Pair show ?thesis by (simp add: try_finally_def)
  qed
  then show ?thesis by (simp add: preserves_def)
qed

lemma grow_refl: "reflp commands_grow"
  by (simp add: reflp_def commands_grow_def)

lemma grow_trans: "transp commands_grow"
  by (auto simp: transp_def commands_grow_def)

lemma grow_run: "preserves commands_grow (run env c)"
  by (simp add: preserves_def commands_grow_def run_def)

lemma grow_emit: "preserves commands_grow (emit lg lvl m)"
  by (simp add: preserves_def commands_grow_def emit_def)

lemmas grow_intros =
  preserves_bind [OF grow_trans] preserves_then_do [OF grow_trans] preserves_if
  preserves_ret [OF grow_refl] grow_run grow_emit

lemma grow_checkout_tag: "preserves commands_grow (checkout_tag env d t lg)"
  unfolding checkout_tag_def by (intro grow_intros)

lemma grow_tag_checkout: "preserves commands_grow (tag_checkout env p tmp lg b)"
  unfolding tag_checkout_def Let_def by (intro grow_intros grow_checkout_tag)

lemma grow_commit_checkout: "preserves commands_grow (commit_checkout env p tmp lg)"
  unfolding commit_checkout_def by (intro grow_intros)

lemma grow_clone_and_checkout: "preserves commands_grow (clone_and_checkout env p tmp lg)"
  unfolding clone_and_checkout_def by (intro grow_intros grow_commit_checkout grow_tag_checkout)

lemma grow_install_and_test: "preserves commands_grow (install_and_test env p tmp lg)"
  unfolding install_and_test_def Let_def by (intro grow_intros)

text \<open>The first command of a call that starts by running a command.\<close>

lemma first_command:
  assumes "\<And>x. preserves commands_grow (f x)"
  shows "prefix (commands s @ [c]) (commands (snd (bind (run env c) f s)))"
proof (cases "run_command env (commands s) c")
  case (Inl e)
  then show ?thesis by (simp add: bind_def run_def)
next
  case (Inr x)
  from assms have "\<forall>s1. prefix (commands s1) (commands (snd (f x s1)))"
    by (simp add: preserves_def commands_grow_def)
  then have "prefix (commands (s\<lparr>commands := commands s @ [c]\<rparr>))
          (commands (snd (f x (s\<lparr>commands := commands s @ [c]\<rparr>))))"
    by (rule spec)
  with Inr show ?thesis by (simp add: bind_def run_def)
qed

lemmas command_defs = clone_command_def commit_fetch_command_def commit_checkout_command_def
  tags_fetch_command_def tag_checkout_command_def venv_command_def strs_def

lemmas example_defs = all_succeed_def commit_fetch_fails_def initial_state_def
  pinned_package_def placeholder_package_def dev_package_def example_package_def

lemmas checkout_defs = clone_and_checkout_def commit_checkout_def tag_checkout_def
  checkout_tag_def

section \<open>Checkout order\<close>












text \<open>
  Claim C6, at the input where the code departs from it: version \<open>0.0.0\<close>, no commit
  hash, every command succeeding. Both tag forms, \<open>v0.0.0\<close> and \<open>0.0.0\<close>, are excluded:
  the commands are the clone and the fetch of the tags, no tag is checked out. But the
  stage returns \<open>False\<close>, where the claim has it succeed on the default branch.
\<close>

theorem placeholder_version_fails:
  "clone_and_checkout all_succeed placeholder_package ''/tmp/example'' ''example'' initial_state
     = (Inr False,
        initial_state\<lparr>commands := [clone_command placeholder_package ''/tmp/example'',
                                     tags_fetch_command ''/tmp/example'']\<rparr>)"
  by (simp add: checkout_defs prog_defs example_defs command_defs truthy_def fmt_def Let_def)

theorem placeholder_version_fails_witness:
  "\<not> truthy (commit_hash placeholder_package)
   \<and> version placeholder_package = Some ''0.0.0''
   \<and> fst (clone_and_checkout all_succeed placeholder_package ''/tmp/example'' ''example''
         initial_state) = Inr False"
  using placeholder_version_fails by (simp add: example_defs truthy_def)

lemma dev_nonempty: "str_in ''.dev'' v \<Longrightarrow> v \<noteq> []"
  by (cases v) simp_all

lemma commit_checkout_absent:
  "\<not> truthy (commit_hash p) \<Longrightarrow> commit_checkout env p tmp lg s = (Inr False, s)"
  by (simp add: commit_checkout_def ret_def)

lemma tag_checkout_dev:
  assumes "version p = Some v" "str_in ''.dev'' v"
  shows "fst (tag_checkout env p tmp lg b s) = Inr True"
    and "commands (snd (tag_checkout env p tmp lg b s)) = commands s"
  using assms dev_nonempty [OF assms(2)]
  by (simp_all add: tag_checkout_def prog_defs truthy_def)

lemma dev_checkout_stage:
  assumes "\<not> truthy (commit_hash p)" and "version p = Some v" and "str_in ''.dev'' v"
  shows "commands (snd (clone_and_checkout env p tmp lg s)) = commands s @ [clone_command p tmp]
    \<and> (run_command env (commands s) (clone_command p tmp) = Inr True \<longrightarrow>
         fst (clone_and_checkout env p tmp lg s) = Inr True)"
proof (cases "run_command env (commands s) (clone_command p tmp)")
  case (Inl e)
  then show ?thesis by (simp add: clone_and_checkout_def prog_defs)
next
  case (Inr ok)
  show ?thesis
  proof (cases ok)
    case True
    with Inr assms(1) show ?thesis
      using tag_checkout_dev [OF assms(2,3), of env tmp lg False]
      by (simp add: clone_and_checkout_def bind_def run_def commit_checkout_absent split: prod.splits sum.splits)
  next
    case False
    with Inr show ?thesis by (simp add: clone_and_checkout_def prog_defs)
  qed
qed

lemma then_emit:
  "then_do (emit lg lvl m) k s = k (snd (emit lg lvl m s))"
  by (simp add: then_do_def bind_def emit_def)

lemma first_command_after_emit:
  assumes "\<And>x. preserves commands_grow (f x)"
  shows "prefix (commands s @ [c])
     (commands (snd (then_do (emit lg lvl m) (bind (run env c) f) s)))"
  using first_command [OF assms, of "snd (emit lg lvl m s)" c env]
  by (simp add: then_emit)

lemma install_and_test_first_command:
  "prefix (commands s @ [venv_command tmp])
     (commands (snd (install_and_test env p tmp lg s)))"
  unfolding install_and_test_def Let_def
  by (intro first_command_after_emit grow_intros)

lemma dev_version_pipeline_proceeds:
  assumes u: "github_url p \<noteq> None"
    and c: "\<not> truthy (commit_hash p)" and v: "version p = Some v" and d: "str_in ''.dev'' v"
    and cl: "run_command env (commands s) (clone_command p (mkdtemp env (pname p))) = Inr True"
  shows "prefix (commands s @ [clone_command p (mkdtemp env (pname p)),
                               venv_command (mkdtemp env (pname p))])
           (commands (snd (package_pipeline env p lg s)))"
proof -
  let ?tmp = "mkdtemp env (pname p)"
  let ?s1 = "snd (emit lg INFO (Package_info p) s)"
  let ?s2 = "?s1\<lparr>temp_dirs := ?tmp # temp_dirs ?s1\<rparr>"
  obtain r s3 where cc: "clone_and_checkout env p ?tmp lg ?s2 = (r, s3)"
    by (cases "clone_and_checkout env p ?tmp lg ?s2")
  have cl2: "run_command env (commands ?s2) (clone_command p ?tmp) = Inr True"
    using cl by simp
  from dev_checkout_stage [OF c v d, of env ?tmp lg ?s2] cl2 cc
  have r: "r = Inr True" and c3: "commands s3 = commands s @ [clone_command p ?tmp]"
    by simp_all
  have "prefix (commands s3 @ [venv_command ?tmp])
     (commands (snd (install_and_test env p ?tmp lg s3)))"
    by (rule install_and_test_first_command)
  moreover have "commands (snd (package_pipeline env p lg s))
     = commands (snd (install_and_test env p ?tmp lg s3))"
  proof -
    from u obtain y where "github_url p = Some y" by auto
    with cc r show ?thesis
      by (simp add: package_pipeline_def then_emit with_temporary_directory_def Let_def
          try_finally_def bind_def split: prod.splits)
  qed
  ultimately show ?thesis by (simp add: c3)
qed

text \<open>
  Claim C7. For a descriptor without commit hash whose version contains \<open>.dev\<close>, the
  clone is the only command of the checkout stage, and the stage returns \<open>True\<close> whenever
  the clone succeeded; the pipeline of the package then goes on with the creation of the
  virtual environment.
\<close>

theorem dev_version_skips_checkout:
  assumes "\<not> truthy (commit_hash p)" and "version p = Some v" and "str_in ''.dev'' v"
  shows "commands (snd (clone_and_checkout env p tmp lg s)) = commands s @ [clone_command p tmp]
    \<and> (run_command env (commands s) (clone_command p tmp) = Inr True \<longrightarrow>
         fst (clone_and_checkout env p tmp lg s) = Inr True)
    \<and> (github_url p \<noteq> None
         \<and> run_command env (commands s) (clone_command p (mkdtemp env (pname p))) = Inr True \<longrightarrow>
         prefix (commands s @ [clone_command p (mkdtemp env (pname p)),
                               venv_command (mkdtemp env (pname p))])
           (commands (snd (package_pipeline env p lg s))))"
  using dev_checkout_stage [OF assms, of env tmp lg s]
    dev_version_pipeline_proceeds [OF _ assms, of env s lg]
  by blast

theorem dev_version_skips_checkout_witness:
  "\<not> truthy (commit_hash dev_package) \<and> version dev_package = Some ''1.2.3.dev0''
   \<and> str_in ''.dev'' ''1.2.3.dev0''
   \<and> run_command all_succeed (commands initial_state)
         (clone_command dev_package ''/tmp/example'') = Inr True
   \<and> fst (clone_and_checkout all_succeed dev_package ''/tmp/example'' ''example'' initial_state)
       = Inr True
   \<and> commands (snd (clone_and_checkout all_succeed dev_package ''/tmp/example'' ''example''
         initial_state)) = [clone_command dev_package ''/tmp/example'']
   \<and> prefix [clone_command dev_package ''/tmp/example'', venv_command ''/tmp/example'']
         (commands (snd (package_pipeline all_succeed dev_package ''example'' initial_state)))"
  using dev_version_skips_checkout [where p = dev_package and v = "''1.2.3.dev0''"
      and env = all_succeed and s = initial_state and tmp = "''/tmp/example''"
      and lg = "''example''"]
  by (simp add: example_defs truthy_def)

section \<open>Log handlers and log files\<close>


lemma grow_tmp: "commands_grow s (s\<lparr>temp_dirs := d\<rparr>)"
  by (simp add: commands_grow_def)
















lemma remove_last_snoc [simp]: "remove_last x (xs @ [x]) = xs"
  by (simp add: remove_last_def)

lemma clone_and_test_package_unfold:
  "clone_and_test_package env p s =
     (case package_pipeline env p (pname p)
             (s\<lparr>handlers := handlers s @ [(pname p, log_file_of (pname p))],
                open_files := open_files s @ [log_file_of (pname p)],
                files := (files s)(log_file_of (pname p) \<mapsto>
                   (case files s (log_file_of (pname p)) of None \<Rightarrow> [] | Some rs \<Rightarrow> rs))\<rparr>) of
        (r, s1) \<Rightarrow> (r, release_handler (pname p) (log_file_of (pname p)) s1))"
  by (simp add: clone_and_test_package_def Let_def then_do_def bind_def add_file_handler_def
      try_finally_def)


section \<open>The process pool\<close>

text \<open>A batch returns the results of its calls, one per element, or raises what one of them raised.\<close>

declare get_tasks.simps [simp del]


lemma mapstar_results:
  assumes "mapstar f ps s = (Inr rs, s')"
  shows "length rs = length ps \<and> (\<forall>i < length ps. \<exists>si si'. f (ps ! i) si = (Inr (rs ! i), si'))"
  using assms
proof (induction ps arbitrary: s rs)
  case Nil
  then show ?case by (simp add: ret_def)
next
  case (Cons a ps)
  obtain r1 s1 where a: "f a s = (r1, s1)" by (cases "f a s")
  obtain r2 s2 where m: "mapstar f ps s1 = (r2, s2)" by (cases "mapstar f ps s1")
  from Cons.prems a m obtain x xs where x: "r1 = Inr x" and xs: "r2 = Inr xs" and rs: "rs = x # xs"
    and s2: "s2 = s'"
    by (auto simp: bind_def ret_def split: sum.splits)
  from Cons.IH [of s1 xs] m xs s2
  have ih: "length xs = length ps" "\<forall>i < length ps. \<exists>si si'. f (ps ! i) si = (Inr (xs ! i), si')"
    by simp_all
  have "\<exists>si si'. f ((a # ps) ! i) si = (Inr (rs ! i), si')" if "i < length (a # ps)" for i
  proof (cases i)
    case 0
    with a x rs show ?thesis by auto
  next
    case (Suc j)
    with that ih(2) rs show ?thesis by simp
  qed
  with ih(1) rs show ?case by simp
qed

lemma mapstar_append:
  "mapstar f (xs @ ys) s =
     (case mapstar f xs s of
        (Inl e, s1) \<Rightarrow> (Inl e, s1)
      | (Inr rs, s1) \<Rightarrow>
          (case mapstar f ys s1 of
             (Inl e, s2) \<Rightarrow> (Inl e, s2)
           | (Inr rs', s2) \<Rightarrow> (Inr (rs @ rs'), s2)))"
proof (induction xs arbitrary: s)
  case Nil
  then show ?case by (simp add: ret_def split: prod.splits sum.splits)
next
  case (Cons a xs)
  show ?case
    by (simp add: bind_def ret_def Cons.IH split: prod.splits sum.splits)
qed


lemma concat_get_tasks: "0 < c \<Longrightarrow> concat (get_tasks c xs) = xs"
proof (induction c xs rule: get_tasks.induct)
  case (1 sz it)
  then show ?case by (subst get_tasks.simps) simp
qed

lemma length_get_tasks: "0 < c \<Longrightarrow> length xs \<le> length (get_tasks c xs) * c"
proof (induction c xs rule: get_tasks.induct)
  case (1 sz it)
  show ?case
  proof (cases "it = []")
    case True
    then show ?thesis by simp
  next
    case False
    with 1 have "length (drop sz it) \<le> length (get_tasks sz (drop sz it)) * sz" by simp
    with False 1(2) show ?thesis by (subst get_tasks.simps) simp
  qed
qed

lemma run_batches_length: "run_batches f bs s = (outcomes, s') \<Longrightarrow> length outcomes = length bs"
  by (induction bs arbitrary: s outcomes) (auto split: prod.splits)

lemma run_batches_all_success:
  assumes "run_batches f bs s = (outcomes, s')" and "\<forall>e. Inl e \<notin> set outcomes"
  shows "\<exists>target. mapstar f (concat bs) s = (Inr target, s')"
  using assms
proof (induction bs arbitrary: s outcomes)
  case Nil
  then show ?case by (simp add: ret_def)
next
  case (Cons b bs)
  obtain o1 s1 where b: "mapstar f b s = (o1, s1)" by (cases "mapstar f b s")
  obtain os s2 where r: "run_batches f bs s1 = (os, s2)" by (cases "run_batches f bs s1")
  from Cons.prems(1) b r have o: "outcomes = o1 # os" and s2: "s2 = s'" by simp_all
  with Cons.prems(2) obtain r1 where r1: "o1 = Inr r1" by (cases o1) auto
  from o Cons.prems(2) have "\<forall>e. Inl e \<notin> set os" by simp
  moreover from r s2 have "run_batches f bs s1 = (os, s')" by simp
  ultimately obtain t where "mapstar f (concat bs) s1 = (Inr t, s')"
    using Cons.IH by blast
  with b r1 show ?case by (simp add: mapstar_append)
qed


lemma set_arrange: "set (arrange picks xs) = set xs"
proof (induction picks xs rule: arrange.induct)
  case (1 picks)
  then show ?case by simp
next
  case (2 x xs)
  then show ?case by simp
next
  case (3 k picks x xs)
  let ?l = "x # xs"
  let ?j = "k mod length ?l"
  have j: "?j < length ?l" by simp
  have "?l = take ?j ?l @ ?l ! ?j # drop (Suc ?j) ?l"
    using j by (rule id_take_nth_drop)
  then have "set ?l = insert (?l ! ?j) (set (take ?j ?l @ drop (Suc ?j) ?l))"
    by (metis Un_insert_right list.simps(15) set_append)
  with 3 show ?case by (simp add: Let_def)
qed

text \<open>When every call returns, the batches return the consecutive pieces of the result list.\<close>

lemma div_chunk:
  assumes "0 < (c::nat)"
  shows "(j div c = i) = (i * c \<le> j \<and> j < i * c + c)"
proof
  assume "j div c = i"
  then show "i * c \<le> j \<and> j < i * c + c"
    using dividend_less_div_times [OF assms, of j] by (auto simp: mult.commute add.commute)
next
  assume "i * c \<le> j \<and> j < i * c + c"
  then show "j div c = i" by (intro div_nat_eqI) (auto simp: mult.commute)
qed

lemma run_batches_sequential:
  assumes "0 < c" and "mapstar f xs s = (Inr target, s')"
  shows "run_batches f (get_tasks c xs) s =
     (map (\<lambda>i. Inr (take c (drop (i * c) target))) [0..<length (get_tasks c xs)], s')"
  using assms
proof (induction c xs arbitrary: s target rule: get_tasks.induct)
  case (1 sz it)
  show ?case
  proof (cases "it = []")
    case True
    with 1(3) show ?thesis by (subst (1 2) get_tasks.simps) (simp add: ret_def)
  next
    case False
    let ?b = "take sz it" and ?rest = "drop sz it"
    have gt: "get_tasks sz it = ?b # get_tasks sz ?rest"
      using False 1(2) by (subst get_tasks.simps) simp
    have "mapstar f (?b @ ?rest) s = (Inr target, s')" using 1(3) by simp
    then obtain r0 s1 t' where b: "mapstar f ?b s = (Inr r0, s1)"
      and r: "mapstar f ?rest s1 = (Inr t', s')" and t: "target = r0 @ t'"
      unfolding mapstar_append by (auto split: prod.splits sum.splits)
    have l0: "length r0 = length ?b" using mapstar_results [OF b] by simp
    have lt: "length t' = length ?rest" using mapstar_results [OF r] by simp
    from 1(1) [OF _ 1(2) r] False 1(2)
    have ih: "run_batches f (get_tasks sz ?rest) s1 =
       (map (\<lambda>i. Inr (take sz (drop (i * sz) t'))) [0..<length (get_tasks sz ?rest)], s')"
      by simp
    have first: "take sz target = r0" using t l0 lt by (cases "sz \<le> length it") auto
    have later: "take sz (drop (Suc i * sz) target) = take sz (drop (i * sz) t')"
      if "i < length (get_tasks sz ?rest)" for i
    proof (cases "length it < sz")
      case True
      then have "get_tasks sz ?rest = []" by (subst get_tasks.simps) simp
      with that show ?thesis by simp
    next
      case False
      then have "length r0 = sz" using l0 by simp
      then show ?thesis using t by simp
    qed
    have eq: "map (\<lambda>i. Inr (take sz (drop (i * sz) target))) [0..<length (get_tasks sz it)]
        = Inr r0 # map (\<lambda>i. Inr (take sz (drop (i * sz) t'))) [0..<length (get_tasks sz ?rest)]"
      (is "?l = ?r")
    proof -
      have "[0..<length (get_tasks sz it)] = 0 # map Suc [0..<length (get_tasks sz ?rest)]"
        unfolding gt by (simp add: map_Suc_upt upt_conv_Cons del: upt_Suc)
      then have "?l = Inr (take sz (drop (0 * sz) target))
          # map (\<lambda>i. Inr (take sz (drop (Suc i * sz) target))) [0..<length (get_tasks sz ?rest)]"
        by (simp add: comp_def)
      also have "\<dots> = ?r" using first later by simp
      finally show ?thesis .
    qed
    have rb: "run_batches f (get_tasks sz it) s =
       (Inr r0 # map (\<lambda>i. Inr (take sz (drop (i * sz) t'))) [0..<length (get_tasks sz ?rest)], s')"
      by (subst gt) (simp add: b ih)
    show ?thesis by (simp only: rb eq)
  qed
qed

text \<open>
  The value of the map result: a failure that arrives stays, and when nothing but
  successes arrive, every position receives the result of its own element, in whatever
  order the batches arrive.
\<close>

lemma MapResult_failed_stays: "fold (MapResult_set c) arr (Inl e) = Inl e"
  by (induction arr) (auto simp: MapResult_set_def)

lemma MapResult_failure_arrives:
  assumes "(i, Inl e) \<in> set arr"
  shows "\<exists>e'. fold (MapResult_set c) arr acc = Inl e'"
  using assms
proof (induction arr arbitrary: acc)
  case Nil
  then show ?case by simp
next
  case (Cons a arr)
  show ?case
  proof (cases "a = (i, Inl e)")
    case True
    then have "\<exists>e'. MapResult_set c a acc = Inl e'"
      by (cases acc) (auto simp: MapResult_set_def)
    then show ?thesis by (auto simp: MapResult_failed_stays)
  next
    case False
    with Cons.prems have "(i, Inl e) \<in> set arr" by simp
    from Cons.IH [OF this] show ?thesis by simp
  qed
qed


lemma slice_assign_chunk:
  assumes c: "0 < c" and lt: "length target = n" and lv: "length v = n"
  shows "length (slice_assign v (i * c) ((i + 1) * c) (take c (drop (i * c) target))) = n
    \<and> (\<forall>j < n. slice_assign v (i * c) ((i + 1) * c) (take c (drop (i * c) target)) ! j
           = (if j div c = i then target ! j else v ! j))"
proof (intro conjI allI impI)
  show "length (slice_assign v (i * c) ((i + 1) * c) (take c (drop (i * c) target))) = n"
    using lt lv by (auto simp: slice_assign_def max_def min_def)
next
  fix j assume j: "j < n"
  let ?r = "take c (drop (i * c) target)"
  have sa: "slice_assign v (i * c) ((i + 1) * c) ?r = take (i * c) v @ ?r @ drop (i * c + c) v"
    by (simp add: slice_assign_def max_def add.commute)
  have lr: "length ?r = min c (n - i * c)" using lt by simp
  consider (before) "j < i * c" | (inside) "i * c \<le> j" "j < i * c + c" | (after) "i * c + c \<le> j"
    by linarith
  then show "slice_assign v (i * c) ((i + 1) * c) ?r ! j = (if j div c = i then target ! j else v ! j)"
  proof cases
    case before
    then have "j div c \<noteq> i" using div_chunk [OF c, of j i] by simp
    moreover have "(take (i * c) v @ ?r @ drop (i * c + c) v) ! j = v ! j"
      using before j lv by (simp add: nth_append)
    ultimately show ?thesis using sa by simp
  next
    case inside
    then have d: "j div c = i" using div_chunk [OF c, of j i] by simp
    have l1: "length (take (i * c) v) = i * c" using inside j lv by simp
    have l2: "j - i * c < length ?r" using inside j lr by linarith
    have "j - i * c < c" using inside by linarith
    then have "?r ! (j - i * c) = drop (i * c) target ! (j - i * c)" by simp
    also have "\<dots> = target ! (i * c + (j - i * c))" using inside j lt by simp
    also have "\<dots> = target ! j" using inside by simp
    finally have r: "?r ! (j - i * c) = target ! j" .
    have "(take (i * c) v @ ?r @ drop (i * c + c) v) ! j = (?r @ drop (i * c + c) v) ! (j - i * c)"
      using inside l1 by (simp add: nth_append)
    also have "\<dots> = ?r ! (j - i * c)" using l2 by (simp only: nth_append if_True)
    finally show ?thesis using sa r d by simp
  next
    case after
    then have d: "j div c \<noteq> i" using div_chunk [OF c, of j i] by simp
    have l1: "length (take (i * c) v) = i * c" using after j lv by simp
    have l2: "length ?r = c" using after j lr by linarith
    have "(take (i * c) v @ ?r @ drop (i * c + c) v) ! j = (?r @ drop (i * c + c) v) ! (j - i * c)"
      using after l1 by (simp add: nth_append)
    also have "\<dots> = drop (i * c + c) v ! (j - i * c - c)"
      using after l2 by (simp only: nth_append) simp
    also have "\<dots> = v ! (i * c + c + (j - i * c - c))" using after j lv by simp
    also have "\<dots> = v ! j" using after by simp
    finally show ?thesis using sa d by simp
  qed
qed

lemma MapResult_all_success:
  assumes c: "0 < c" and lt: "length target = n" and lv: "length v = n"
    and arr: "\<forall>(i, sr) \<in> set arr. sr = Inr (take c (drop (i * c) target))"
  shows "\<exists>v'. fold (MapResult_set c) arr (Inr v) = Inr v' \<and> length v' = n
    \<and> (\<forall>j < n. v' ! j = (if j div c \<in> fst ` set arr then target ! j else v ! j))"
  using lv arr
proof (induction arr arbitrary: v)
  case Nil
  then show ?case by simp
next
  case (Cons a arr)
  obtain i sr where a: "a = (i, sr)" by (cases a)
  let ?r = "take c (drop (i * c) target)"
  let ?v1 = "slice_assign v (i * c) ((i + 1) * c) ?r"
  have sr: "sr = Inr ?r" using Cons.prems(2) a by simp
  have step: "MapResult_set c a (Inr v) = Inr ?v1" using a sr by (simp add: MapResult_set_def)
  have v1: "length ?v1 = n" "\<forall>j < n. ?v1 ! j = (if j div c = i then target ! j else v ! j)"
    using slice_assign_chunk [OF c lt Cons.prems(1), of i] by blast+
  have rest: "\<forall>(i, sr) \<in> set arr. sr = Inr (take c (drop (i * c) target))"
    using Cons.prems(2) by simp
  from Cons.IH [OF v1(1) rest] obtain v' where v': "fold (MapResult_set c) arr (Inr ?v1) = Inr v'"
    "length v' = n" "\<forall>j < n. v' ! j = (if j div c \<in> fst ` set arr then target ! j else ?v1 ! j)"
    by blast
  have "\<forall>j < n. v' ! j = (if j div c \<in> fst ` set (a # arr) then target ! j else v ! j)"
    using v'(3) v1(2) a by auto
  then show ?case using v'(1,2) step by simp
qed

lemma chunksize_positive:
  assumes "0 < (n::nat)"
  shows "0 < n div k + (if n mod k \<noteq> 0 then 1 else 0)"
proof (cases "n mod k = 0")
  case True
  then have "n = k * (n div k)" by auto
  then have "n div k \<noteq> 0" using assms by (metis mult_0_right less_irrefl)
  then show ?thesis by simp
next
  case False
  then show ?thesis by simp
qed

lemma pool_map_sequential:
  fixes f :: "'a \<Rightarrow> 'b option prog"
  assumes cpu: "1 \<le> cpu_count env" and seq: "mapstar f xs s = (Inr target, s')"
  shows "pool_map env f xs s = (Inr target, s')"
proof (cases "xs = []")
  case True
  with seq have "target = []" "s' = s" by (simp_all add: ret_def)
  then show ?thesis using True cpu by (subst pool_map_def) (simp add: get_tasks.simps)
next
  case False
  define n where "n = length xs"
  define c where "c = n div (cpu_count env * 4) + (if n mod (cpu_count env * 4) \<noteq> 0 then 1 else 0)"
  define k where "k = length (get_tasks c xs)"
  define g where "g = (\<lambda>i. (Inr (take c (drop (i * c) target)) :: py_error + 'b option list))"
  have n: "0 < n" using False by (simp add: n_def)
  have c: "0 < c" unfolding c_def by (rule chunksize_positive [OF n])
  have lt: "length target = n" using mapstar_results [OF seq] by (simp add: n_def)
  have rb: "run_batches f (get_tasks c xs) s = (map g [0..<k], s')"
    unfolding g_def k_def by (rule run_batches_sequential [OF c seq])
  have zp: "zip [0..<length (map g [0..<k])] (map g [0..<k]) = map (\<lambda>i. (i, g i)) [0..<k]"
    by (simp add: zip_map2 zip_same_conv_map)
  let ?arr = "arrange (completion_order env) (map (\<lambda>i. (i, g i)) [0..<k])"
  have sarr: "set ?arr = (\<lambda>i. (i, g i)) ` {0..<k}" by (simp add: set_arrange)
  have "\<forall>(i, sr) \<in> set ?arr. sr = Inr (take c (drop (i * c) target))"
    unfolding sarr by (auto simp: g_def)
  from MapResult_all_success [OF c lt _ this, of "replicate n None"]
  obtain v' where v': "fold (MapResult_set c) ?arr (Inr (replicate n None)) = Inr v'"
    "length v' = n" "\<forall>j < n. v' ! j = (if j div c \<in> fst ` set ?arr then target ! j else replicate n None ! j)"
    by auto
  have cover: "j div c \<in> fst ` set ?arr" if "j < n" for j
  proof -
    have "n \<le> k * c" unfolding k_def n_def by (rule length_get_tasks [OF c])
    with that have "j < k * c" by simp
    then have "j div c < k" using c by (simp add: less_mult_imp_div_less)
    then show ?thesis unfolding sarr by (auto simp: image_image)
  qed
  have "v' = target"
    by (rule nth_equalityI) (use v'(2,3) lt cover in auto)
  with v'(1) have fold: "fold (MapResult_set c) ?arr (Inr (replicate n None)) = Inr target" by simp
  have "pool_map env f xs s =
     (fold (MapResult_set c) (arrange (completion_order env) (zip [0..<length (map g [0..<k])] (map g [0..<k])))
        (Inr (replicate n None)), s')"
    unfolding pool_map_def Let_def n_def [symmetric] c_def [symmetric] using cpu n rb by simp
  then show ?thesis unfolding zp fold .
qed

lemma pool_map_cases:
  "\<exists>outcomes c. pool_map env f xs s =
     (if cpu_count env < 1 then (Inl ValueError, s)
      else (fold (MapResult_set c) (arrange (completion_order env) (zip [0..<length outcomes] outcomes))
              (Inr (replicate (length xs) None)), snd (run_batches f (get_tasks c xs) s)))
     \<and> run_batches f (get_tasks c xs) s = (outcomes, snd (run_batches f (get_tasks c xs) s))
     \<and> (xs \<noteq> [] \<longrightarrow> 0 < c)"
proof -
  define c where "c = (if length xs = 0 then 0 else length xs div (cpu_count env * 4) + (if length xs mod (cpu_count env * 4) \<noteq> 0 then 1 else 0))"
  obtain outcomes s' where rb: "run_batches f (get_tasks c xs) s = (outcomes, s')"
    by (cases "run_batches f (get_tasks c xs) s")
  have "xs \<noteq> [] \<longrightarrow> 0 < c"
    using chunksize_positive [of "length xs" "cpu_count env * 4"] by (simp add: c_def)
  moreover have "pool_map env f xs s =
     (if cpu_count env < 1 then (Inl ValueError, s)
      else (fold (MapResult_set c) (arrange (completion_order env) (zip [0..<length outcomes] outcomes))
              (Inr (replicate (length xs) None)), s'))"
    unfolding pool_map_def Let_def c_def [symmetric] using rb by simp
  ultimately show ?thesis using rb by (intro exI [of _ outcomes] exI [of _ c]) simp
qed

lemma zip_covers:
  assumes "x \<in> set os"
  shows "\<exists>i. (i, x) \<in> set (zip [0..<length os] os)"
proof -
  from assms obtain i where "i < length os" "os ! i = x" by (auto simp: in_set_conv_nth)
  then have "(i, x) \<in> set (zip [0..<length os] os)"
    by (auto simp: set_zip intro!: exI [of _ i])
  then show ?thesis ..
qed

lemma pool_map_returns:
  assumes "pool_map env f xs s = (Inr rs, s')"
  shows "mapstar f xs s = (Inr rs, s') \<and> 1 \<le> cpu_count env"
proof -
  from pool_map_cases [of env f xs s] obtain outcomes c where
    pm: "pool_map env f xs s =
     (if cpu_count env < 1 then (Inl ValueError, s)
      else (fold (MapResult_set c) (arrange (completion_order env) (zip [0..<length outcomes] outcomes))
              (Inr (replicate (length xs) None)), snd (run_batches f (get_tasks c xs) s)))"
    and rb: "run_batches f (get_tasks c xs) s = (outcomes, snd (run_batches f (get_tasks c xs) s))"
    and c: "xs \<noteq> [] \<longrightarrow> 0 < c" by blast
  have cpu: "1 \<le> cpu_count env" using assms pm by (auto split: if_splits)
  have fold: "fold (MapResult_set c) (arrange (completion_order env) (zip [0..<length outcomes] outcomes))
              (Inr (replicate (length xs) None)) = Inr rs"
    and s': "snd (run_batches f (get_tasks c xs) s) = s'"
    using assms pm cpu by (auto split: if_splits)
  have none: "\<forall>e. Inl e \<notin> set outcomes"
  proof (intro allI notI)
    fix e assume "Inl e \<in> set outcomes"
    from zip_covers [OF this] obtain i where "(i, Inl e) \<in> set (zip [0..<length outcomes] outcomes)" ..
    then have "(i, Inl e) \<in> set (arrange (completion_order env) (zip [0..<length outcomes] outcomes))"
      by (simp add: set_arrange)
    from MapResult_failure_arrives [OF this, where c = c and acc = "Inr (replicate (length xs) None)"] fold
    show False by simp
  qed
  have seq: "\<exists>target. mapstar f xs s = (Inr target, s')"
  proof (cases "xs = []")
    case True
    then have "get_tasks c xs = []" by (simp add: get_tasks.simps)
    with rb s' have "s' = s" by simp
    then show ?thesis using True by (simp add: ret_def)
  next
    case False
    with c have "0 < c" by simp
    from run_batches_all_success [OF rb none] show ?thesis
      unfolding concat_get_tasks [OF \<open>0 < c\<close>] s' .
  qed
  then obtain target where t: "mapstar f xs s = (Inr target, s')" ..
  from pool_map_sequential [OF cpu t] assms have "target = rs" by simp
  with t cpu show ?thesis by simp
qed



section \<open>Dispatch and aggregation\<close>

lemma classify_by_position:
  assumes "i + length ps \<le> length results"
  shows "classify i ps results (a, b) =
     Inr (a @ passed_of ps (drop i results), b @ failed_of ps (drop i results))"
  using assms
proof (induction ps arbitrary: i a b)
  case Nil
  then show ?case by (simp add: passed_of_def failed_of_def)
next
  case (Cons p ps)
  then have i: "i < length results" and n: "Suc i + length ps \<le> length results" by simp_all
  have d: "drop i results = results ! i # drop (Suc i) results"
    using i by (simp add: Cons_nth_drop_Suc)
  show ?case
    using i Cons.IH [OF n] by (simp add: d passed_of_def failed_of_def)
qed

lemma run_tests_parallel_returns:
  assumes "pool_map env (clone_and_test_package env) ps s = (Inr rs, s')"
  shows "run_tests_parallel env ps s = (Inr (passed_of ps rs, failed_of ps rs), s')"
proof -
  have "length rs = length ps"
    using mapstar_results [OF pool_map_returns [OF assms, THEN conjunct1]] by simp
  then have "classify 0 ps rs ([], []) = Inr (passed_of ps rs, failed_of ps rs)"
    using classify_by_position [of 0 ps rs "[]" "[]"] by simp
  then show ?thesis using assms by (simp add: run_tests_parallel_def bind_def)
qed

lemma run_tests_parallel_raises:
  assumes "pool_map env (clone_and_test_package env) ps s = (Inl e, s')"
  shows "run_tests_parallel env ps s = (Inl e, s')"
  using assms by (simp add: run_tests_parallel_def bind_def)

lemma run_tests_parallel_cases:
  "run_tests_parallel env ps s =
     (case pool_map env (clone_and_test_package env) ps s of
        (Inl e, s') \<Rightarrow> (Inl e, s')
      | (Inr rs, s') \<Rightarrow> (Inr (passed_of ps rs, failed_of ps rs), s'))"
  using run_tests_parallel_returns [of env ps s] run_tests_parallel_raises [of env ps s]
  by (auto split: prod.splits sum.splits)

lemma print_result: "print l s = (Inr (), s\<lparr>console := console s @ [l]\<rparr>)"
  by (simp add: print_def)

lemma output_package_logs_returns: "fst (output_package_logs ps s) = Inr ()"
proof (induction ps arbitrary: s)
  case Nil
  then show ?case by (simp add: ret_def)
next
  case (Cons p ps)
  then show ?case
    by (simp add: Let_def then_do_def bind_def print_def split: option.splits)
qed

lemma test_plugins_empty:
  assumes "split_packages (packages_after_skip pkgs skip) nt ni = Inr []"
  shows "test_plugins env pkgs skip nt ni s = (Inr 0, s\<lparr>console := console s @ [No_plugins_found]\<rparr>)"
  using assms by (simp add: test_plugins_def Let_def then_do_def bind_def print_def ret_def)

lemma test_plugins_raises:
  assumes "split_packages (packages_after_skip pkgs skip) nt ni = Inr slice" "slice \<noteq> []"
    and "run_tests_parallel env slice s = (Inl e, s')"
  shows "test_plugins env pkgs skip nt ni s = (Inl e, s')"
  using assms by (simp add: test_plugins_def Let_def bind_def)

lemma test_plugins_returns:
  assumes "split_packages (packages_after_skip pkgs skip) nt ni = Inr slice" "slice \<noteq> []"
    and "run_tests_parallel env slice s = (Inr (passed, failed), s')"
  shows "fst (test_plugins env pkgs skip nt ni s) = Inr (if failed = [] then 0 else 1)"
proof -
  obtain s1 where o: "output_package_logs slice s' = (Inr (), s1)"
    using output_package_logs_returns [of slice s'] by (cases "output_package_logs slice s'") simp
  show ?thesis
    using assms o
    by (simp add: test_plugins_def Let_def bind_def then_do_def print_def ret_def)
qed

lemma failed_of_empty:
  assumes "length rs = length ps"
  shows "failed_of ps rs = [] \<longleftrightarrow> (\<forall>r \<in> set rs. r = Some True)"
proof -
  have "set rs = snd ` set (zip ps rs)"
    using assms by (metis map_snd_zip set_map)
  then show ?thesis
    by (auto simp: failed_of_def filter_empty_conv)
qed

text \<open>
  Claim C8. With an empty slice the run prints that nothing is to be tested and exits
  with status 0, the state otherwise untouched: nothing is dispatched. With a non-empty
  slice whose dispatch returns, the status is 1 when the failed list is non-empty and 0
  otherwise. The status is 0 exactly when the slice is empty or every package of the slice
  returned \<open>True\<close>.
\<close>

theorem exit_status:
  assumes "split_packages (packages_after_skip pkgs skip) nt ni = Inr slice"
  shows "(slice = [] \<longrightarrow>
            test_plugins env pkgs skip nt ni s
              = (Inr 0, s\<lparr>console := console s @ [No_plugins_found]\<rparr>))
    \<and> (\<forall>passed failed s1.
          slice \<noteq> [] \<and> run_tests_parallel env slice s = (Inr (passed, failed), s1) \<longrightarrow>
          fst (test_plugins env pkgs skip nt ni s) = Inr (if failed = [] then 0 else 1))
    \<and> (fst (test_plugins env pkgs skip nt ni s) = Inr 0 \<longleftrightarrow>
          slice = [] \<or>
          (\<exists>rs s1. pool_map env (clone_and_test_package env) slice s = (Inr rs, s1)
              \<and> (\<forall>r \<in> set rs. r = Some True)))"
proof (intro conjI allI impI)
  show "test_plugins env pkgs skip nt ni s = (Inr 0, s\<lparr>console := console s @ [No_plugins_found]\<rparr>)"
    if "slice = []"
    using assms that by (simp add: test_plugins_empty)
  show "fst (test_plugins env pkgs skip nt ni s) = Inr (if failed = [] then 0 else 1)"
    if "slice \<noteq> [] \<and> run_tests_parallel env slice s = (Inr (passed, failed), s1)"
    for passed failed s1
    using assms that by (simp add: test_plugins_returns)
  show "fst (test_plugins env pkgs skip nt ni s) = Inr 0 \<longleftrightarrow>
          slice = [] \<or>
          (\<exists>rs s1. pool_map env (clone_and_test_package env) slice s = (Inr rs, s1)
              \<and> (\<forall>r \<in> set rs. r = Some True))"
  proof (cases "slice = []")
    case True
    with assms show ?thesis by (simp add: test_plugins_empty)
  next
    case False
    obtain r s1 where m: "pool_map env (clone_and_test_package env) slice s = (r, s1)"
      by (cases "pool_map env (clone_and_test_package env) slice s")
    show ?thesis
    proof (cases r)
      case (Inl e)
      with m have "run_tests_parallel env slice s = (Inl e, s1)"
        by (simp add: run_tests_parallel_raises)
      from test_plugins_raises [OF assms False this] m Inl False show ?thesis by simp
    next
      case (Inr rs)
      with m have p: "pool_map env (clone_and_test_package env) slice s = (Inr rs, s1)" by simp
      have l: "length rs = length slice"
        using mapstar_results [OF pool_map_returns [OF p, THEN conjunct1]] by simp
      from test_plugins_returns [OF assms False run_tests_parallel_returns [OF p]]
      have "fst (test_plugins env pkgs skip nt ni s) = Inr 0 \<longleftrightarrow> failed_of slice rs = []"
        by simp
      with p False show ?thesis by (simp add: failed_of_empty [OF l])
    qed
  qed
qed

lemma split_packages_single: "split_packages ps 1 1 = Inr ps"
  by (simp add: split_packages_def floordiv_def py_slice_from_def slice_bound_def)

lemma packages_no_skip: "packages_after_skip pkgs None = map snd pkgs"
  by (simp add: packages_after_skip_def plugins_to_skip_list_def truthy_def)

lemmas pipeline_defs = test_plugins_def run_tests_parallel_def clone_and_test_package_def
  package_pipeline_def install_and_test_def with_temporary_directory_def add_file_handler_def
  release_handler_def print_def log_file_of_def path_join_def endswith_def append_record_def
  remove_last_def

lemmas more_defs = venv_raises_def other_package_def unresolvable_package_def
  locked_elsewhere_def attach_git_info_def git_package_name_def get_git_url_def
  is_valid_github_url_def

lemmas pool_defs = pool_map_def get_tasks.simps MapResult_set_def slice_assign_def


theorem exit_status_witness:
  "split_packages (packages_after_skip [(''example'', pinned_package)] None) 1 1
     = Inr [pinned_package]
   \<and> fst (test_plugins all_succeed [(''example'', pinned_package)] None 1 1 initial_state) = Inr 0
   \<and> fst (pool_map all_succeed (clone_and_test_package all_succeed) [pinned_package]
          initial_state) = Inr [Some True]
   \<and> fst (test_plugins all_succeed [(''example'', placeholder_package)] None 1 1 initial_state)
       = Inr 1
   \<and> fst (test_plugins all_succeed [(''example'', pinned_package)] (Some ''example'') 1 1
         initial_state) = Inr 0"
  using exit_status [where pkgs = "[(''example'', pinned_package)]" and skip = None
      and nt = 1 and ni = 1 and slice = "[pinned_package]" and env = all_succeed
      and s = initial_state]
  by (simp add: pipeline_defs checkout_defs prog_defs example_defs command_defs truthy_def
      fmt_def Let_def split_packages_single packages_no_skip packages_after_skip_def
      plugins_to_skip_list_def strip_def isspace_def pool_defs
      split_packages_def floordiv_def py_slice_from_def slice_bound_def)




lemma attach_unresolvable:
  assumes "git_packages (git_package_name (pname p0)) = None"
    and "\<not> is_valid_github_url (github_url p0)" "\<not> is_valid_github_url (repository p0)"
    "\<not> is_valid_github_url (homepage p0)"
  shows "github_url (attach_git_info git_packages p0) = None"
    and "pname (attach_git_info git_packages p0) = pname p0"
  using assms get_git_url_rest [OF assms(2)] by (simp_all add: attach_git_info_def)

lemma attach_locked:
  assumes "git_packages (git_package_name (pname p0)) = Some info"
  shows "github_url (attach_git_info git_packages p0) = Some (lock_url info)"
    and "commit_hash (attach_git_info git_packages p0) = Some (lock_commit info)"
    and "pname (attach_git_info git_packages p0) = pname p0"
  using assms by (simp_all add: attach_git_info_def)

lemma fold_append_record_last:
  "\<exists>recs. fold (append_record r) (ps @ [path]) fs path = Some (recs @ [r])"
  by (simp add: append_record_def)

lemma skipped_package:
  assumes "github_url p = None"
  shows "fst (clone_and_test_package env p s) = Inr None"
    and "commands (snd (clone_and_test_package env p s)) = commands s"
    and "\<exists>recs. files (snd (clone_and_test_package env p s)) (log_file_of (pname p))
            = Some (recs @ [(pname p, WARNING, No_github_url (pname p))])"
proof -
  let ?path = "log_file_of (pname p)"
  let ?s0 = "s\<lparr>handlers := handlers s @ [(pname p, ?path)],
                open_files := open_files s @ [?path],
                files := (files s)(?path \<mapsto>
                   (case files s ?path of None \<Rightarrow> [] | Some rs \<Rightarrow> rs))\<rparr>"
  let ?s1 = "snd (emit (pname p) INFO (Package_info p) ?s0)"
  let ?s2 = "snd (emit (pname p) WARNING (No_github_url (pname p)) ?s1)"
  have pp: "package_pipeline env p (pname p) ?s0 = (Inr None, ?s2)"
    using assms by (simp add: package_pipeline_def then_do_def bind_def emit_def ret_def)
  have c: "clone_and_test_package env p s = (Inr None, release_handler (pname p) ?path ?s2)"
    unfolding clone_and_test_package_unfold pp by simp
  show "fst (clone_and_test_package env p s) = Inr None"
    unfolding c by simp
  show "commands (snd (clone_and_test_package env p s)) = commands s"
    unfolding c by (simp add: release_handler_def)
  have h: "map snd (filter (\<lambda>h. fst h = pname p) (handlers ?s1))
      = map snd (filter (\<lambda>h. fst h = pname p) (handlers s)) @ [?path]"
    by (simp add: emit_def)
  have "\<exists>recs. files ?s2 ?path = Some (recs @ [(pname p, WARNING, No_github_url (pname p))])"
    using fold_append_record_last [of "(pname p, WARNING, No_github_url (pname p))"
        "map snd (filter (\<lambda>h. fst h = pname p) (handlers s))" ?path "files ?s1"]
    unfolding h [symmetric] by (simp add: emit_def)
  then show "\<exists>recs. files (snd (clone_and_test_package env p s)) (log_file_of (pname p))
            = Some (recs @ [(pname p, WARNING, No_github_url (pname p))])"
    unfolding c by (simp add: release_handler_def)
qed

lemma skipped_in_failed:
  assumes "github_url p = None" "p \<in> set ps"
    and "run_tests_parallel env ps s0 = (Inr (passed, failed), s1)"
  shows "pname p \<in> set failed"
proof -
  obtain r s2 where m: "pool_map env (clone_and_test_package env) ps s0 = (r, s2)"
    by (cases "pool_map env (clone_and_test_package env) ps s0")
  from assms(3) m obtain rs where r: "r = Inr rs"
    by (cases r) (simp_all add: run_tests_parallel_raises)
  with m have p: "pool_map env (clone_and_test_package env) ps s0 = (Inr rs, s2)" by simp
  from run_tests_parallel_returns [OF p] assms(3) have f: "failed = failed_of ps rs" by simp
  note res = mapstar_results [OF pool_map_returns [OF p, THEN conjunct1]]
  from assms(2) obtain i where i: "i < length ps" "ps ! i = p" by (auto simp: in_set_conv_nth)
  with res obtain si si' where "clone_and_test_package env p si = (Inr (rs ! i), si')" by auto
  with skipped_package(1) [OF assms(1), of env si] have "rs ! i = None" by simp
  moreover have "(ps ! i, rs ! i) \<in> set (zip ps rs)"
    using i res by (auto simp: set_zip)
  ultimately have "(p, None) \<in> set (zip ps rs)" using i by simp
  then show ?thesis
    unfolding f failed_of_def by force
qed

text \<open>What comes after a call does not take back the commands it ran.\<close>

lemma grow_after:
  assumes "\<And>x. preserves commands_grow (h x)"
  shows "prefix (commands (snd (m s))) (commands (snd (bind m h s)))"
proof (cases "m s")
  case (Pair r s1)
  show ?thesis
  proof (cases r)
    case (Inl e)
    with Pair show ?thesis by (simp add: bind_def)
  next
    case (Inr x)
    have "commands_grow s1 (snd (h x s1))" by (rule preservesD [OF assms])
    with Pair Inr show ?thesis by (simp add: bind_def commands_grow_def)
  qed
qed

lemma cloned_first:
  assumes "github_url p \<noteq> None"
  shows "prefix (commands s @ [clone_command p (mkdtemp env (pname p))])
     (commands (snd (clone_and_test_package env p s)))"
proof -
  let ?tmp = "mkdtemp env (pname p)"
  let ?path = "log_file_of (pname p)"
  let ?s0 = "s\<lparr>handlers := handlers s @ [(pname p, ?path)],
                open_files := open_files s @ [?path],
                files := (files s)(?path \<mapsto>
                   (case files s ?path of None \<Rightarrow> [] | Some rs \<Rightarrow> rs))\<rparr>"
  let ?s1 = "snd (emit (pname p) INFO (Package_info p) ?s0)"
  let ?s2 = "?s1\<lparr>temp_dirs := ?tmp # temp_dirs ?s1\<rparr>"
  let ?h = "\<lambda>ok. if \<not> ok then ret None else install_and_test env p ?tmp (pname p)"
  have c2: "commands ?s2 = commands s" by simp
  have "prefix (commands ?s2 @ [clone_command p ?tmp])
      (commands (snd (clone_and_checkout env p ?tmp (pname p) ?s2)))"
    unfolding clone_and_checkout_def
    by (intro first_command grow_intros grow_commit_checkout grow_tag_checkout)
  moreover have "prefix (commands (snd (clone_and_checkout env p ?tmp (pname p) ?s2)))
      (commands (snd (bind (clone_and_checkout env p ?tmp (pname p)) ?h ?s2)))"
    by (intro grow_after grow_intros grow_install_and_test)
  ultimately have b: "prefix (commands s @ [clone_command p ?tmp])
      (commands (snd (bind (clone_and_checkout env p ?tmp (pname p)) ?h ?s2)))"
    unfolding c2 by (rule prefix_order.trans)
  from assms obtain y where y: "github_url p = Some y" by auto
  have "commands (snd (package_pipeline env p (pname p) ?s0))
      = commands (snd (bind (clone_and_checkout env p ?tmp (pname p)) ?h ?s2))"
    using y
    by (simp add: package_pipeline_def then_emit with_temporary_directory_def Let_def
        try_finally_def split: prod.splits)
  then have "commands (snd (clone_and_test_package env p s))
      = commands (snd (bind (clone_and_checkout env p ?tmp (pname p)) ?h ?s2))"
    unfolding clone_and_test_package_unfold
    by (cases "package_pipeline env p (pname p) ?s0") (simp add: release_handler_def)
  with b show ?thesis by simp
qed

text \<open>
  Claim C2, as the code has it. Take a descriptor none of whose URLs passes the
  validation. Without an entry in the git packages it reaches the test runner without
  \<open>github_url\<close>; its pipeline runs no command, logs the warning and returns \<open>None\<close>; its name
  is in the failed list of every dispatch that returns, and a run whose slice contains it
  cannot exit with a status other than 1. With an entry it receives the URL and the commit
  of the entry, which nothing validates, and is not skipped: the first command of its
  pipeline is the clone of that URL.
\<close>

theorem unresolvable_package_fails:
  assumes "\<not> is_valid_github_url (github_url p0)" "\<not> is_valid_github_url (repository p0)"
    "\<not> is_valid_github_url (homepage p0)"
  shows "(git_packages (git_package_name (pname p0)) = None \<longrightarrow>
          github_url (attach_git_info git_packages p0) = None
        \<and> fst (clone_and_test_package env (attach_git_info git_packages p0) s) = Inr None
        \<and> commands (snd (clone_and_test_package env (attach_git_info git_packages p0) s))
            = commands s
        \<and> (\<exists>recs. files (snd (clone_and_test_package env (attach_git_info git_packages p0) s))
                     (log_file_of (pname p0))
                   = Some (recs @ [(pname p0, WARNING, No_github_url (pname p0))]))
        \<and> (\<forall>ps s0 passed failed s1.
              attach_git_info git_packages p0 \<in> set ps
              \<and> run_tests_parallel env ps s0 = (Inr (passed, failed), s1) \<longrightarrow>
              pname p0 \<in> set failed)
        \<and> (\<forall>pkgs skip nt ni slice s0 c s1.
              split_packages (packages_after_skip pkgs skip) nt ni = Inr slice
              \<and> attach_git_info git_packages p0 \<in> set slice
              \<and> test_plugins env pkgs skip nt ni s0 = (Inr c, s1) \<longrightarrow>
              c = 1))
    \<and> (\<forall>info. git_packages (git_package_name (pname p0)) = Some info \<longrightarrow>
          github_url (attach_git_info git_packages p0) = Some (lock_url info)
        \<and> commit_hash (attach_git_info git_packages p0) = Some (lock_commit info)
        \<and> prefix (commands s @ [clone_command (attach_git_info git_packages p0)
                                   (mkdtemp env (pname p0))])
            (commands (snd (clone_and_test_package env (attach_git_info git_packages p0) s))))"
proof (intro conjI allI impI)
  assume n: "git_packages (git_package_name (pname p0)) = None"
  note a = attach_unresolvable [where git_packages = git_packages, OF n assms]
  show "github_url (attach_git_info git_packages p0) = None" by (rule a(1))
  show "fst (clone_and_test_package env (attach_git_info git_packages p0) s) = Inr None"
    using a(1) by (rule skipped_package(1))
  show "commands (snd (clone_and_test_package env (attach_git_info git_packages p0) s))
      = commands s"
    using a(1) by (rule skipped_package(2))
  show "\<exists>recs. files (snd (clone_and_test_package env (attach_git_info git_packages p0) s))
                 (log_file_of (pname p0))
               = Some (recs @ [(pname p0, WARNING, No_github_url (pname p0))])"
    using skipped_package(3) [OF a(1), of env s] by (simp add: a(2))
  show f: "pname p0 \<in> set failed"
    if "attach_git_info git_packages p0 \<in> set ps
          \<and> run_tests_parallel env ps s0 = (Inr (passed, failed), s1)"
    for ps s0 passed failed s1
    using skipped_in_failed [OF a(1), of ps env s0 passed failed s1] that by (simp add: a(2))
  show "c = 1"
    if t: "split_packages (packages_after_skip pkgs skip) nt ni = Inr slice
          \<and> attach_git_info git_packages p0 \<in> set slice
          \<and> test_plugins env pkgs skip nt ni s0 = (Inr c, s1)"
    for pkgs skip nt ni slice s0 c s1
  proof -
    from t have sp: "split_packages (packages_after_skip pkgs skip) nt ni = Inr slice"
      and mem: "attach_git_info git_packages p0 \<in> set slice"
      and tp: "test_plugins env pkgs skip nt ni s0 = (Inr c, s1)" by simp_all
    from mem have ne: "slice \<noteq> []" by auto
    obtain r s2 where rt: "run_tests_parallel env slice s0 = (r, s2)"
      by (cases "run_tests_parallel env slice s0")
    show ?thesis
    proof (cases r)
      case (Inl e)
      with test_plugins_raises [OF sp ne, of env s0 e s2] rt tp show ?thesis by simp
    next
      case (Inr pf)
      obtain passed failed where pf: "pf = (passed, failed)" by (cases pf)
      with Inr rt have rt': "run_tests_parallel env slice s0 = (Inr (passed, failed), s2)" by simp
      from f [of slice s0 passed failed s2] mem rt' have "failed \<noteq> []" by auto
      with test_plugins_returns [OF sp ne rt'] tp show ?thesis by simp
    qed
  qed
next
  fix info assume l: "git_packages (git_package_name (pname p0)) = Some info"
  note a = attach_locked [where git_packages = git_packages, OF l]
  show "github_url (attach_git_info git_packages p0) = Some (lock_url info)" by (rule a(1))
  show "commit_hash (attach_git_info git_packages p0) = Some (lock_commit info)" by (rule a(2))
  show "prefix (commands s @ [clone_command (attach_git_info git_packages p0)
                                   (mkdtemp env (pname p0))])
            (commands (snd (clone_and_test_package env (attach_git_info git_packages p0) s)))"
    using cloned_first [of "attach_git_info git_packages p0" s env] a by simp
qed

theorem unresolvable_package_fails_witness:
  "\<not> is_valid_github_url (homepage (example_package\<lparr>homepage := Some ''https://example.com''\<rparr>))
   \<and> fst (clone_and_test_package all_succeed unresolvable_package initial_state) = Inr None
   \<and> commands (snd (clone_and_test_package all_succeed unresolvable_package initial_state)) = []
   \<and> files (snd (clone_and_test_package all_succeed unresolvable_package initial_state))
        ''logs/example/test_output.log''
      = Some [(''example'', INFO, Package_info unresolvable_package),
              (''example'', WARNING, No_github_url ''example'')]
   \<and> \<not> is_valid_github_url (github_url locked_elsewhere)
   \<and> commit_hash locked_elsewhere = Some ''abc123''
   \<and> prefix [clone_command locked_elsewhere ''/tmp/example'']
        (commands (snd (clone_and_test_package all_succeed locked_elsewhere initial_state)))"
proof -
  let ?lock = "\<lambda>name. if name = ''example''
                then Some \<lparr>lock_commit = ''abc123'',
                           lock_url = ''https://gitlab.com/org/example.git''\<rparr>
                else None"
  have "\<not> is_valid_github_url (homepage (example_package\<lparr>homepage := Some ''https://example.com''\<rparr>))
   \<and> fst (clone_and_test_package all_succeed unresolvable_package initial_state) = Inr None
   \<and> commands (snd (clone_and_test_package all_succeed unresolvable_package initial_state)) = []
   \<and> files (snd (clone_and_test_package all_succeed unresolvable_package initial_state))
        ''logs/example/test_output.log''
      = Some [(''example'', INFO, Package_info unresolvable_package),
              (''example'', WARNING, No_github_url ''example'')]"
    using unresolvable_package_fails [where ?p0.0 = "example_package\<lparr>homepage := Some ''https://example.com''\<rparr>"
        and git_packages = "\<lambda>name. None" and env = all_succeed and s = initial_state]
    by (simp add: pipeline_defs prog_defs example_defs truthy_def Let_def more_defs)
  moreover
  have "\<not> is_valid_github_url (github_url locked_elsewhere)
   \<and> commit_hash locked_elsewhere = Some ''abc123''
   \<and> prefix [clone_command locked_elsewhere ''/tmp/example'']
        (commands (snd (clone_and_test_package all_succeed locked_elsewhere initial_state)))"
    using unresolvable_package_fails [where ?p0.0 = example_package
        and git_packages = ?lock and env = all_succeed and s = initial_state]
    by (simp add: locked_elsewhere_def example_defs git_package_name_def
        is_valid_github_url_def)
  ultimately show ?thesis by simp
qed

text \<open>
  Claim C2 as stated fails. A run whose only package has no URL on the hosting domain and
  no entry in the git packages exits with status 1. A package whose entry in the git
  packages points to another host is not skipped: it is cloned and tested, and passes.
\<close>

theorem unresolvable_package_counterexample:
  "get_git_url (example_package\<lparr>homepage := Some ''https://example.com''\<rparr>) = None
   \<and> fst (test_plugins all_succeed [(''example'', unresolvable_package)] None 1 1 initial_state)
       = Inr 1
   \<and> fst (run_tests_parallel all_succeed [unresolvable_package] initial_state)
       = Inr ([], [''example''])
   \<and> \<not> is_valid_github_url (github_url locked_elsewhere)
   \<and> \<not> is_valid_github_url (repository locked_elsewhere)
   \<and> \<not> is_valid_github_url (homepage locked_elsewhere)
   \<and> fst (clone_and_test_package all_succeed locked_elsewhere initial_state) = Inr (Some True)
   \<and> fst (test_plugins all_succeed [(''example'', locked_elsewhere)] None 1 1 initial_state)
       = Inr 0"
  by (simp add: pipeline_defs checkout_defs prog_defs example_defs command_defs truthy_def
      fmt_def Let_def more_defs split_packages_single packages_no_skip pool_defs)



















end
